theory Spec2Isabelle
  imports Main "HOL-Library.Word"
begin

unbundle bit_operations_syntax

section \<open>Machine types\<close>

text \<open>
  Modelled from the spec: \<^verbatim>\<open>uint8\<close>, \<^verbatim>\<open>uint16\<close> and \<^verbatim>\<open>uint32\<close> are declared in a header
  that is not part of the sources at hand; they are the unsigned integers of 8, 16 and 32
  bits. \<^verbatim>\<open>unsigned\<close> is taken to be 32 bits wide, and \<^verbatim>\<open>int\<close> wide enough for the line
  counter.
\<close>

type_synonym uint8 = "8 word"
type_synonym uint16 = "16 word"
type_synonym uint32 = "32 word"

section \<open>The input stream\<close>

text \<open>
  A \<^verbatim>\<open>std::istream\<close> is modelled by its unread characters and one flag:
  \<open>good\<close> is \<^verbatim>\<open>stream.good()\<close>, true as long as neither \<^verbatim>\<open>eofbit\<close> nor
  \<^verbatim>\<open>failbit\<close> is set. Every input function of the library first builds a sentry,
  which fails when the stream is not good, so the two bits never need to be told apart.
\<close>

record istream =
  chars :: string
  good :: bool

definition open_stream :: "string \<Rightarrow> istream" where
  "open_stream text = \<lparr>chars = text, good = True\<rparr>"

text \<open>
  \<^verbatim>\<open>int c = stream.get()\<close>: the next character as an \<^verbatim>\<open>unsigned char\<close> value, or
  \<^verbatim>\<open>EOF\<close> (that is \<open>-1\<close>) when the stream is not good or has no character left; the
  latter sets \<^verbatim>\<open>eofbit | failbit\<close>.
\<close>

definition get :: "istream \<Rightarrow> int \<times> istream" where
  "get s =
     (if \<not> good s then (- 1, s)
      else case chars s of
             [] \<Rightarrow> (- 1, s\<lparr>good := False\<rparr>)
           | c # cs \<Rightarrow> (of_char c, s\<lparr>chars := cs\<rparr>))"

text \<open>\<^verbatim>\<open>isspace\<close> of the classic locale, which \<^verbatim>\<open>operator>>\<close> skips.\<close>

definition isspace :: "char \<Rightarrow> bool" where
  "isspace c = (c = CHR '' '' \<or> (9::nat) \<le> of_char c \<and> (of_char c :: nat) \<le> 13)"

text \<open>
  \<^verbatim>\<open>char c; ifs >> c;\<close> skips white space and reads one character. When the stream
  is not good, or holds nothing but white space, the extraction fails, sets
  \<^verbatim>\<open>eofbit | failbit\<close> and leaves \<^verbatim>\<open>c\<close> as it was. The source declares \<^verbatim>\<open>c\<close>
  without initialising it, so that value is indeterminate: it is the parameter
  \<open>c0\<close> of the model.
\<close>

definition extract_char :: "char \<Rightarrow> istream \<Rightarrow> char \<times> istream" where
  "extract_char c0 s =
     (if \<not> good s then (c0, s)
      else case dropWhile isspace (chars s) of
             [] \<Rightarrow> (c0, s\<lparr>chars := [], good := False\<rparr>)
           | c # cs \<Rightarrow> (c, s\<lparr>chars := cs\<rparr>))"

section \<open>The record lexer\<close>

text \<open>
  \<^verbatim>\<open>getUint4\<close>: no check that the character is a hexadecimal digit, and the
  \<^verbatim>\<open>int\<close> result is converted to \<^verbatim>\<open>unsigned\<close> (32 bits), so \<^verbatim>\<open>EOF\<close> and
  characters below \<^verbatim>\<open>'0'\<close> wrap around.
\<close>

definition getUint4 :: "istream \<Rightarrow> uint32 \<times> istream" where
  "getUint4 stream =
     (let (c, stream) = get stream
      in if c \<le> 57 then (word_of_int (c - 48), stream)
         else if c \<le> 70 then (word_of_int (c - 65 + 10), stream)
         else (word_of_int (c - 97 + 10), stream))"

text \<open>
  \<^verbatim>\<open>getUint8\<close> and \<^verbatim>\<open>getUint16\<close>: the operand on the left of \<^verbatim>\<open>|\<close> is read
  first (most significant digit first).
\<close>

definition getUint8 :: "istream \<Rightarrow> uint32 \<times> istream" where
  "getUint8 stream =
     (let (hi, stream) = getUint4 stream;
          (lo, stream) = getUint4 stream
      in (push_bit 4 hi OR lo, stream))"

definition getUint16 :: "istream \<Rightarrow> uint32 \<times> istream" where
  "getUint16 stream =
     (let (hi, stream) = getUint8 stream;
          (lo, stream) = getUint8 stream
      in (push_bit 8 hi OR lo, stream))"

section \<open>The sparse memory model\<close>

text \<open>
  Modelled from the spec: the type \<^verbatim>\<open>ChunkMap\<close> of the member \<^verbatim>\<open>data\<close> is declared in
  \<^verbatim>\<open>HexFile.h\<close>, which is not part of the sources at hand. The spec describes it as an
  ordered mapping, ascending by address, from a 32-bit start address to a byte sequence
  (a \<^verbatim>\<open>std::map\<close>). It is an association list kept strictly ascending by key, and
  iterating over it visits the chunks in that order.
\<close>

type_synonym ChunkMap = "(uint32 \<times> uint8 list) list"

fun ordered :: "ChunkMap \<Rightarrow> bool" where
  "ordered [] = True"
| "ordered [c] = True"
| "ordered (c # d # m) = (fst c < fst d \<and> ordered (d # m))"

text \<open>\<^verbatim>\<open>data[address] = recordData\<close>: a new entry, or a new value for the entry of that key.\<close>

fun assign :: "uint32 \<Rightarrow> uint8 list \<Rightarrow> ChunkMap \<Rightarrow> ChunkMap" where
  "assign address recordData [] = [(address, recordData)]"
| "assign address recordData ((first, second) # m) =
     (if address < first then (address, recordData) # (first, second) # m
      else if address = first then (address, recordData) # m
      else (first, second) # assign address recordData m)"

text \<open>
  The scan for ``some place to add''. The sums are computed in \<^verbatim>\<open>size_t\<close>; it is taken to
  be wider than 32 bits, so that they do not wrap around and are sums of naturals.
  The first chunk, in key order, whose end is \<open>address\<close> gets the new bytes appended;
  the first whose start is the end of the new run gets them prepended, under the key it
  already had. \<open>None\<close> is \<^verbatim>\<open>found == false\<close>.
\<close>

fun fuse :: "uint32 \<Rightarrow> uint8 list \<Rightarrow> ChunkMap \<Rightarrow> ChunkMap option" where
  "fuse address recordData [] = None"
| "fuse address recordData ((first, second) # m) =
     (if unat address = unat first + length second
        then Some ((first, second @ recordData) # m)
      else if unat address + length recordData = unat first
        then Some ((first, recordData @ second) # m)
      else map_option ((#) (first, second)) (fuse address recordData m))"

definition store_record :: "uint32 \<Rightarrow> uint8 list \<Rightarrow> ChunkMap \<Rightarrow> ChunkMap" where
  "store_record address recordData data =
     (case fuse address recordData data of
        Some data' \<Rightarrow> data'
      | None \<Rightarrow> assign address recordData data)"

section \<open>The decoder\<close>

text \<open>
  The exceptions of \<^verbatim>\<open>HexFile::read\<close>, each with the line counter it is thrown with;
  \<open>WrongCheckSum\<close> carries the check sum of the record and the computed one, in the order
  of the source's constructor call.
\<close>

datatype error =
    EarlyEOF int
  | InvalidRecord int
  | WrongCheckSum int uint8 uint8
  | UnknownRecordType int uint8

fun error_line :: "error \<Rightarrow> int" where
  "error_line (EarlyEOF n) = n"
| "error_line (InvalidRecord n) = n"
| "error_line (WrongCheckSum n r c) = n"
| "error_line (UnknownRecordType n t) = n"

text \<open>
  The loop reading the data bytes of a data record: \<open>n\<close> bytes still to read,
  \<open>computedCheckSum\<close> and \<open>recordData\<close> so far.
\<close>

fun read_data :: "nat \<Rightarrow> uint8 \<Rightarrow> uint8 list \<Rightarrow> istream \<Rightarrow> uint8 list \<times> uint8 \<times> istream" where
  "read_data 0 computedCheckSum recordData ifs = (recordData, computedCheckSum, ifs)"
| "read_data (Suc n) computedCheckSum recordData ifs =
     (let (v, ifs) = getUint8 ifs;
          d = (ucast v :: uint8)
      in read_data n (computedCheckSum + d) (recordData @ [d]) ifs)"

text \<open>
  What one turn of the loop of \<^verbatim>\<open>read\<close> does: go on with a new base address, model and
  stream, return, or throw. A throw and the return leave \<^verbatim>\<open>data\<close> as this turn found it.
\<close>

datatype step = Next uint32 ChunkMap istream | Return | Throw error

text \<open>Type 0, after the type byte.\<close>

definition data_record ::
  "int \<Rightarrow> uint32 \<Rightarrow> ChunkMap \<Rightarrow> uint8 \<Rightarrow> uint16 \<Rightarrow> uint8 \<Rightarrow> istream \<Rightarrow> step" where
  "data_record lineCounter baseAddress data dataLength lowAddress computedCheckSum ifs =
     (let (recordData, computedCheckSum, ifs) = read_data (unat dataLength) computedCheckSum [] ifs;
          (v, ifs) = getUint8 ifs;
          checkSum = (ucast v :: uint8);
          computedCheckSum = 1 + NOT computedCheckSum
      in if checkSum \<noteq> computedCheckSum
           then Throw (WrongCheckSum lineCounter checkSum computedCheckSum)
         else
           let address = (ucast lowAddress :: uint32) + baseAddress
           in Next baseAddress (store_record address recordData data) ifs)"

text \<open>
  Types 2 and 4, after the type byte; the two cases of the source differ in the shift
  only (4 for the segment address, 16 for the linear address).
\<close>

definition address_record ::
  "nat \<Rightarrow> int \<Rightarrow> ChunkMap \<Rightarrow> uint8 \<Rightarrow> uint8 \<Rightarrow> istream \<Rightarrow> step" where
  "address_record shift lineCounter data dataLength computedCheckSum ifs =
     (if dataLength \<noteq> 2 then Throw (InvalidRecord lineCounter)
      else
        let (v, ifs) = getUint16 ifs;
            highAddress = (ucast v :: uint16);
            computedCheckSum = computedCheckSum + ucast highAddress;
            computedCheckSum = computedCheckSum + ucast (drop_bit 8 highAddress);
            baseAddress = push_bit shift (ucast highAddress :: uint32);
            (v, ifs) = getUint8 ifs;
            checkSum = (ucast v :: uint8);
            computedCheckSum = 1 + NOT computedCheckSum
        in if checkSum \<noteq> computedCheckSum
             then Throw (WrongCheckSum lineCounter checkSum computedCheckSum)
           else Next baseAddress data ifs)"

definition read_record :: "char \<Rightarrow> int \<Rightarrow> uint32 \<Rightarrow> ChunkMap \<Rightarrow> istream \<Rightarrow> step" where
  "read_record c0 lineCounter baseAddress data ifs =
     (let (c, ifs) = extract_char c0 ifs
      in if c \<noteq> CHR '':'' then Throw (InvalidRecord lineCounter)
         else
           let computedCheckSum = (0 :: uint8);
               (v, ifs) = getUint8 ifs;
               dataLength = (ucast v :: uint8);
               computedCheckSum = computedCheckSum + dataLength;
               (v, ifs) = getUint16 ifs;
               lowAddress = (ucast v :: uint16);
               computedCheckSum = computedCheckSum + ucast lowAddress;
               computedCheckSum = computedCheckSum + ucast (drop_bit 8 lowAddress);
               (v, ifs) = getUint8 ifs;
               recordType = (ucast v :: uint8);
               computedCheckSum = computedCheckSum + recordType
           in if recordType = 0
                then data_record lineCounter baseAddress data dataLength lowAddress computedCheckSum ifs
              else if recordType = 1 then Return
              else if recordType = 2
                then address_record 4 lineCounter data dataLength computedCheckSum ifs
              else if recordType = 4
                then address_record 16 lineCounter data dataLength computedCheckSum ifs
              else Throw (UnknownRecordType lineCounter recordType))"

text \<open>
  The stream gets shorter with every successful extraction and is not good after a failed
  one: the measure of the loop.
\<close>

definition unread :: "istream \<Rightarrow> nat" where
  "unread s = (if good s then Suc (length (chars s)) else 0)"

lemma unread_get: "unread (snd (get s)) \<le> unread s"
  by (cases "chars s") (simp_all add: get_def unread_def)

lemma unread_getUint4: "unread (snd (getUint4 s)) \<le> unread s"
  using unread_get [of s] by (cases "get s") (simp add: getUint4_def)

lemma unread_getUint8: "unread (snd (getUint8 s)) \<le> unread s"
proof -
  have "unread (snd (getUint4 (snd (getUint4 s)))) \<le> unread s"
    using unread_getUint4 [of "snd (getUint4 s)"] unread_getUint4 [of s] by simp
  then show ?thesis
    by (cases "getUint4 s"; cases "getUint4 (snd (getUint4 s))") (simp add: getUint8_def)
qed

lemma unread_getUint16: "unread (snd (getUint16 s)) \<le> unread s"
proof -
  have "unread (snd (getUint8 (snd (getUint8 s)))) \<le> unread s"
    using unread_getUint8 [of "snd (getUint8 s)"] unread_getUint8 [of s] by simp
  then show ?thesis
    by (cases "getUint8 s"; cases "getUint8 (snd (getUint8 s))") (simp add: getUint16_def)
qed

lemma unread_read_data: "unread (snd (snd (read_data n cs acc s))) \<le> unread s"
proof (induction n arbitrary: cs acc s)
  case 0
  show ?case by simp
next
  case (Suc n)
  obtain v s' where g: "getUint8 s = (v, s')" by (cases "getUint8 s")
  have "unread s' \<le> unread s" using unread_getUint8 [of s] g by simp
  with Suc [of "cs + ucast v" "acc @ [ucast v]" s'] g show ?case by (simp add: Let_def)
qed

lemma unread_extract_char: "good s \<Longrightarrow> unread (snd (extract_char c0 s)) < unread s"
proof -
  assume g: "good s"
  have "length (dropWhile isspace (chars s)) \<le> length (chars s)"
    by (rule length_dropWhile_le)
  with g show ?thesis
    by (auto simp: extract_char_def unread_def split: list.split)
qed

lemma unread_data_record:
  "data_record l b m n a cs s = Next b' m' s' \<Longrightarrow> unread s' \<le> unread s"
proof -
  assume a: "data_record l b m n a cs s = Next b' m' s'"
  obtain rd cs1 s1 where r: "read_data (unat n) cs [] s = (rd, cs1, s1)"
    by (cases "read_data (unat n) cs [] s") auto
  obtain v s2 where g: "getUint8 s1 = (v, s2)" by (cases "getUint8 s1")
  have "unread s1 \<le> unread s" using unread_read_data [of "unat n" cs "[]" s] r by simp
  moreover have "unread s2 \<le> unread s1" using unread_getUint8 [of s1] g by simp
  moreover have "s' = s2" using a r g by (simp add: data_record_def Let_def split: if_splits)
  ultimately show ?thesis by simp
qed

lemma unread_address_record:
  "address_record k l m n cs s = Next b' m' s' \<Longrightarrow> unread s' \<le> unread s"
proof -
  assume a: "address_record k l m n cs s = Next b' m' s'"
  obtain v1 s1 where g1: "getUint16 s = (v1, s1)" by (cases "getUint16 s")
  obtain v2 s2 where g2: "getUint8 s1 = (v2, s2)" by (cases "getUint8 s1")
  have "unread s1 \<le> unread s" using unread_getUint16 [of s] g1 by simp
  moreover have "unread s2 \<le> unread s1" using unread_getUint8 [of s1] g2 by simp
  moreover have "s' = s2" using a g1 g2 by (simp add: address_record_def Let_def split: if_splits)
  ultimately show ?thesis by simp
qed

lemma unread_read_record:
  assumes "good s" and "read_record c0 l b m s = Next b' m' s'"
  shows "unread s' < unread s"
proof -
  obtain c s0 where e: "extract_char c0 s = (c, s0)" by (cases "extract_char c0 s")
  obtain v1 s1 where g1: "getUint8 s0 = (v1, s1)" by (cases "getUint8 s0")
  obtain v2 s2 where g2: "getUint16 s1 = (v2, s2)" by (cases "getUint16 s1")
  obtain v3 s3 where g3: "getUint8 s2 = (v3, s3)" by (cases "getUint8 s2")
  have "unread s0 < unread s" using unread_extract_char [OF assms(1), of c0] e by simp
  moreover have "unread s1 \<le> unread s0" using unread_getUint8 [of s0] g1 by simp
  moreover have "unread s2 \<le> unread s1" using unread_getUint16 [of s1] g2 by simp
  moreover have "unread s3 \<le> unread s2" using unread_getUint8 [of s2] g3 by simp
  moreover have "unread s' \<le> unread s3"
    using assms(2) e g1 g2 g3
    by (auto simp: read_record_def Let_def split: if_splits
        dest: unread_data_record unread_address_record)
  ultimately show ?thesis by simp
qed

text \<open>
  The loop of \<^verbatim>\<open>read\<close>. The result is the exception that leaves the function, if any,
  and the member \<^verbatim>\<open>data\<close> as the call leaves it: the source changes it in place, record
  by record.
\<close>

function read_loop :: "char \<Rightarrow> int \<Rightarrow> uint32 \<Rightarrow> ChunkMap \<Rightarrow> istream \<Rightarrow> error option \<times> ChunkMap" where
  "read_loop c0 lineCounter baseAddress data ifs =
     (if good ifs then
        (case read_record c0 lineCounter baseAddress data ifs of
           Next baseAddress' data' ifs' \<Rightarrow> read_loop c0 (lineCounter + 1) baseAddress' data' ifs'
         | Return \<Rightarrow> (None, data)
         | Throw e \<Rightarrow> (Some e, data))
      else (Some (EarlyEOF lineCounter), data))"
  by pat_completeness auto
termination
  by (relation "measure (\<lambda>(c0, lineCounter, baseAddress, data, ifs). unread ifs)")
     (auto dest: unread_read_record)

declare read_loop.simps [simp del]

text \<open>
  \<^verbatim>\<open>read\<close>, from the stream it has opened; \<open>data\<close> is the member before the call. Opening the
  file, with the test of \<^verbatim>\<open>ifs.bad()\<close> and its \<^verbatim>\<open>FileOpeningError\<close>, is left to the caller
  of the model, as in the spec; a stream that failed to open is one that is not good.
\<close>

definition read :: "char \<Rightarrow> istream \<Rightarrow> ChunkMap \<Rightarrow> error option \<times> ChunkMap" where
  "read c0 ifs data = read_loop c0 0 0 data ifs"

section \<open>The encoder\<close>

text \<open>
  \<^verbatim>\<open>write\<close> sets the flags of the output stream to \<^verbatim>\<open>std::ios::hex\<close> and its fill
  character to \<^verbatim>\<open>'0'\<close>: an unsigned number is printed in lower-case hexadecimal digits,
  as many as it needs, padded on the left up to the width set by \<^verbatim>\<open>std::setw\<close>.
\<close>

definition hex_digit :: "nat \<Rightarrow> char" where
  "hex_digit n = (if n < 10 then char_of (48 + n) else char_of (87 + n))"

fun put_hex :: "nat \<Rightarrow> string" where
  "put_hex n = (if n < 16 then [hex_digit n] else put_hex (n div 16) @ [hex_digit (n mod 16)])"

declare put_hex.simps [simp del]

definition setw :: "nat \<Rightarrow> string \<Rightarrow> string" where
  "setw w out = replicate (w - length out) CHR ''0'' @ out"

text \<open>
  The output functions give the text they append to the stream; \<open>None\<close> is a failed
  \<^verbatim>\<open>assert\<close>.
\<close>

definition writeExtendedLinearAddressRecord :: "uint32 \<Rightarrow> string option" where
  "writeExtendedLinearAddressRecord addr16 =
     (if \<not> addr16 \<le> 65535 then None
      else
        let checkSum = (0 :: uint8);
            out = '':02000002'';
            checkSum = checkSum + 0x02;
            checkSum = checkSum + 0x00;
            checkSum = checkSum + 0x00;
            checkSum = checkSum + 0x02;
            out = out @ setw 2 (put_hex (unat (addr16 AND 0xFF)));
            checkSum = checkSum + ucast (addr16 AND 0xFF);
            out = out @ setw 2 (put_hex (unat (drop_bit 8 addr16)));
            checkSum = checkSum + ucast (drop_bit 8 addr16);
            checkSum = NOT checkSum + 1;
            out = out @ setw 2 (put_hex (unat checkSum))
        in Some (out @ [CHR 0x0A]))"

text \<open>The loop of \<^verbatim>\<open>writeData\<close> over the bytes of the row.\<close>

fun write_bytes :: "uint8 list \<Rightarrow> uint8 \<Rightarrow> string \<times> uint8" where
  "write_bytes [] checkSum = ([], checkSum)"
| "write_bytes (d # ds) checkSum =
     (let (out, checkSum') = write_bytes ds (checkSum + d)
      in (setw 2 (put_hex (unat d)) @ out, checkSum'))"

definition writeData :: "uint32 \<Rightarrow> uint32 \<Rightarrow> uint8 list \<Rightarrow> string option" where
  "writeData addr16 count8 data =
     (if \<not> addr16 \<le> 65535 \<or> \<not> count8 \<le> 255 then None
      else
        let checkSum = (0 :: uint8);
            out = '':'';
            out = out @ setw 2 (put_hex (unat count8));
            checkSum = checkSum + ucast count8;
            out = out @ setw 2 (put_hex (unat (addr16 AND 0xFF)));
            checkSum = checkSum + ucast (addr16 AND 0xFF);
            out = out @ setw 2 (put_hex (unat (drop_bit 8 addr16)));
            checkSum = checkSum + ucast (drop_bit 8 addr16);
            out = out @ ''00'';
            checkSum = checkSum + 0x00;
            (bytes, checkSum) = write_bytes (take (unat count8) data) checkSum;
            out = out @ bytes;
            checkSum = NOT checkSum + 1;
            out = out @ setw 2 (put_hex (unat checkSum))
        in Some (out @ [CHR 0x0A]))"

lemma rows_decrease:
  "count < amount \<Longrightarrow>
   unat amount - unat (count + min (amount - count) 32) < unat amount - unat (count :: uint32)"
  unfolding min_def by (simp split: if_splits) unat_arith

text \<open>
  The loop of \<^verbatim>\<open>write\<close> over the rows of one chunk: \<open>second\<close> are its bytes,
  \<open>amount\<close> their number as an \<^verbatim>\<open>unsigned\<close>, \<open>count\<close> the bytes written so far. Every row
  is written with \<^verbatim>\<open>address & 0xFFFF\<close>, the low address of the chunk.
\<close>

function write_rows :: "uint32 \<Rightarrow> uint8 list \<Rightarrow> uint32 \<Rightarrow> uint32 \<Rightarrow> uint32 \<Rightarrow> string option" where
  "write_rows address second amount highAddress count =
     (if count < amount then
        let newHighAddress = drop_bit 16 (address + count);
            page = (if newHighAddress \<noteq> highAddress
                    then writeExtendedLinearAddressRecord newHighAddress else Some []);
            highAddress = newHighAddress;
            rowCount = min (amount - count) 32;
            lowAddress = address AND 0xFFFF;
            buffer = take (unat rowCount) (drop (unat count) second);
            row = writeData lowAddress rowCount buffer
        in case (page, row, write_rows address second amount highAddress (count + rowCount)) of
             (Some a, Some b, Some c) \<Rightarrow> Some (a @ b @ c)
           | _ \<Rightarrow> None
      else Some [])"
  by pat_completeness auto
termination
  by (relation "measure (\<lambda>(address, second, amount, highAddress, count). unat amount - unat count)")
     (auto dest: rows_decrease)

declare write_rows.simps [simp del]

text \<open>The body of the loop of \<^verbatim>\<open>write\<close> over the chunks, in key order.\<close>

definition write_chunk :: "uint32 \<times> uint8 list \<Rightarrow> string option" where
  "write_chunk it =
     (let address = fst it;
          amount = (of_nat (length (snd it)) :: uint32);
          highAddress = drop_bit 16 address
      in case (writeExtendedLinearAddressRecord highAddress,
               write_rows address (snd it) amount highAddress 0) of
           (Some a, Some b) \<Rightarrow> Some (a @ b)
         | _ \<Rightarrow> None)"

fun write_chunks :: "ChunkMap \<Rightarrow> string option" where
  "write_chunks [] = Some []"
| "write_chunks (it # data) =
     (case (write_chunk it, write_chunks data) of
        (Some a, Some b) \<Rightarrow> Some (a @ b)
      | _ \<Rightarrow> None)"

text \<open>
  \<^verbatim>\<open>HexFile::write\<close>, as the text it writes to the file (\<open>write\<close> is a keyword of
  Isabelle, hence the suffix).
\<close>

definition write_file :: "ChunkMap \<Rightarrow> string option" where
  "write_file data = map_option (\<lambda>out. out @ '':00000001FF'') (write_chunks data)"

section \<open>Records as text\<close>

text \<open>
  What the wire format means, to state what the decoder does on a well-formed record.
  \<open>hex_value\<close> is the value of a hexadecimal digit, of either case.
\<close>

definition hex_value :: "char \<Rightarrow> int option" where
  "hex_value c =
     (let n = (of_char c :: int)
      in if 48 \<le> n \<and> n \<le> 57 then Some (n - 48)
         else if 65 \<le> n \<and> n \<le> 70 then Some (n - 55)
         else if 97 \<le> n \<and> n \<le> 102 then Some (n - 87)
         else None)"

text \<open>\<open>hex_bytes bs t\<close>: the text \<open>t\<close> is the bytes \<open>bs\<close>, two digits each, the high one first.\<close>

fun hex_bytes :: "uint8 list \<Rightarrow> string \<Rightarrow> bool" where
  "hex_bytes [] t = (t = [])"
| "hex_bytes (b # bs) (c1 # c2 # t) =
     (hex_value c1 = Some (uint b div 16) \<and> hex_value c2 = Some (uint b mod 16) \<and> hex_bytes bs t)"
| "hex_bytes (b # bs) t = False"

text \<open>The 16-bit value of two bytes, most significant first.\<close>

definition address16 :: "uint8 \<Rightarrow> uint8 \<Rightarrow> uint16" where
  "address16 hi lo = push_bit 8 (ucast hi) OR ucast lo"

text \<open>
  \<open>record_at bs s\<close>: the stream is good and holds, after white space at most, a colon and
  the bytes \<open>bs\<close> in hexadecimal; \<open>after_record bs s\<close> is the stream behind them.
\<close>

definition record_at :: "uint8 list \<Rightarrow> istream \<Rightarrow> bool" where
  "record_at bs s =
     (good s \<and>
      (case dropWhile isspace (chars s) of
         [] \<Rightarrow> False
       | c # t \<Rightarrow> c = CHR '':'' \<and> hex_bytes bs (take (2 * length bs) t)))"

definition after_record :: "uint8 list \<Rightarrow> istream \<Rightarrow> istream" where
  "after_record bs s = s\<lparr>chars := drop (Suc (2 * length bs)) (dropWhile isspace (chars s))\<rparr>"

text \<open>The same inside a record: the next bytes of the stream, and the stream behind them.\<close>

definition holds :: "uint8 list \<Rightarrow> istream \<Rightarrow> bool" where
  "holds bs s = (good s \<and> hex_bytes bs (take (2 * length bs) (chars s)))"

definition skip :: "nat \<Rightarrow> istream \<Rightarrow> istream" where
  "skip n s = s\<lparr>chars := drop (2 * n) (chars s)\<rparr>"

subsection \<open>The lexer on well-formed text\<close>

lemma getUint4_hex:
  "hex_value c = Some n \<Longrightarrow> good s \<Longrightarrow> chars s = c # cs \<Longrightarrow>
   getUint4 s = (word_of_int n, s\<lparr>chars := cs\<rparr>)"
  by (auto simp: hex_value_def getUint4_def get_def Let_def split: if_splits)

lemma nibbles_word:
  "push_bit 4 (word_of_int (uint b div 16)) OR word_of_int (uint b mod 16) = (ucast (b :: uint8) :: uint32)"
proof -
  have d: "uint b div 16 = drop_bit 4 (uint b)" by (simp add: drop_bit_eq_div)
  have m: "uint b mod 16 = take_bit 4 (uint b)" by (simp add: take_bit_eq_mod)
  show ?thesis
    unfolding d m
    by (rule bit_word_eqI) (auto simp: bit_simps)
qed

lemma getUint8_hex:
  assumes "hex_bytes [b] [c1, c2]" and "good s" and "chars s = c1 # c2 # cs"
  shows "getUint8 s = (ucast b, s\<lparr>chars := cs\<rparr>)"
proof -
  from assms(1) have h: "hex_value c1 = Some (uint b div 16)" and l: "hex_value c2 = Some (uint b mod 16)"
    by simp_all
  have 1: "getUint4 s = (word_of_int (uint b div 16), s\<lparr>chars := c2 # cs\<rparr>)"
    using getUint4_hex [OF h assms(2) assms(3)] .
  have 2: "getUint4 (s\<lparr>chars := c2 # cs\<rparr>) = (word_of_int (uint b mod 16), s\<lparr>chars := cs\<rparr>)"
    using getUint4_hex [OF l, of "s\<lparr>chars := c2 # cs\<rparr>" cs] assms(2) by simp
  show ?thesis by (simp add: getUint8_def 1 2 nibbles_word)
qed


lemma ucast_ucast8: "(ucast (ucast b :: uint32) :: uint8) = b"
  by (rule bit_word_eqI) (auto simp: bit_simps)

lemma skip_skip: "skip m (skip n s) = skip (n + m) s"
  by (simp add: skip_def algebra_simps)

lemma good_skip: "good (skip n s) = good s"
  by (simp add: skip_def)

lemma holds_Cons:
  assumes "holds (b # bs) s"
  shows "getUint8 s = (ucast b, skip (Suc 0) s)" and "holds bs (skip (Suc 0) s)"
proof -
  from assms have g: "good s" and h: "hex_bytes (b # bs) (take (2 * Suc (length bs)) (chars s))"
    by (simp_all add: holds_def)
  from h obtain c1 c2 t where t: "take (2 * Suc (length bs)) (chars s) = c1 # c2 # t"
    by (cases "(b # bs, take (2 * Suc (length bs)) (chars s))" rule: hex_bytes.cases) auto
  then obtain cs where cs: "chars s = c1 # c2 # cs" and tt: "t = take (2 * length bs) cs"
    by (cases "chars s"; cases "tl (chars s)") (auto split: if_splits)
  from h t have hb: "hex_bytes [b] [c1, c2]" and ht: "hex_bytes bs t" by simp_all
  show "getUint8 s = (ucast b, skip (Suc 0) s)"
    using getUint8_hex [OF hb g cs] cs by (simp add: skip_def)
  show "holds bs (skip (Suc 0) s)"
    using g ht tt cs by (simp add: holds_def skip_def)
qed

lemma holds_Cons2:
  assumes "holds (h # l # bs) s"
  shows "getUint16 s = (push_bit 8 (ucast h) OR ucast l, skip 2 s)" and "holds bs (skip 2 s)"
proof -
  note 1 = holds_Cons [OF assms]
  note 2 = holds_Cons [OF 1(2)]
  have k: "skip (Suc 0) (skip (Suc 0) s) = skip 2 s" by (simp add: skip_def)
  show "getUint16 s = (push_bit 8 (ucast h) OR ucast l, skip 2 s)"
    by (simp add: getUint16_def 1(1) 2(1) k)
  show "holds bs (skip 2 s)" using 2(2) by (simp add: k)
qed

lemma holds_append:
  "holds (xs @ ys) s \<Longrightarrow>
   read_data (length xs) cs acc s = (acc @ xs, cs + sum_list xs, skip (length xs) s) \<and>
   holds ys (skip (length xs) s)"
proof (induction xs arbitrary: cs acc s)
  case Nil
  then show ?case by (simp add: skip_def)
next
  case (Cons x xs)
  from Cons.prems have h: "holds (x # (xs @ ys)) s" by simp
  note 1 = holds_Cons [OF h]
  from Cons.IH [OF 1(2), of "cs + x" "acc @ [x]"] 1(1)
  show ?case by (simp add: skip_skip add.assoc ucast_ucast8)
qed

lemma ucast_address16:
  "(ucast (address16 hi lo) :: uint8) = lo" "(ucast (drop_bit 8 (address16 hi lo)) :: uint8) = hi"
  "(ucast (push_bit 8 (ucast hi) OR ucast lo :: uint32) :: uint16) = address16 hi lo"
  unfolding address16_def
  by (rule bit_word_eqI; auto simp: bit_simps dest: bit_imp_le_length)+

lemma record_at_start:
  assumes "record_at bs s"
  shows "\<exists>s0. extract_char c0 s = (CHR '':'', s0) \<and> holds bs s0 \<and>
           (\<forall>n. skip n s0 = s\<lparr>chars := drop (Suc (2 * n)) (dropWhile isspace (chars s))\<rparr>)"
proof -
  from assms obtain t where g: "good s" and d: "dropWhile isspace (chars s) = CHR '':'' # t"
    and h: "hex_bytes bs (take (2 * length bs) t)"
    by (auto simp: record_at_def split: list.splits)
  have "extract_char c0 s = (CHR '':'', s\<lparr>chars := t\<rparr>)"
    using g d by (simp add: extract_char_def)
  moreover have "holds bs (s\<lparr>chars := t\<rparr>)" using g h by (simp add: holds_def)
  moreover have "\<forall>n. skip n (s\<lparr>chars := t\<rparr>) = s\<lparr>chars := drop (Suc (2 * n)) (dropWhile isspace (chars s))\<rparr>"
    using d by (simp add: skip_def)
  ultimately show ?thesis by blast
qed

lemma read_record_at:
  assumes "record_at (len # hi # lo # typ # rest) s"
  shows "read_record c0 line base data s =
           (let cs = len + lo + hi + typ; s4 = after_record [len, hi, lo, typ] s
            in if typ = 0 then data_record line base data len (address16 hi lo) cs s4
               else if typ = 1 then Return
               else if typ = 2 then address_record 4 line data len cs s4
               else if typ = 4 then address_record 16 line data len cs s4
               else Throw (UnknownRecordType line typ))"
    and "holds rest (after_record [len, hi, lo, typ] s)"
proof -
  from record_at_start [OF assms, of c0] obtain s0 where
    e: "extract_char c0 s = (CHR '':'', s0)" and h0: "holds (len # hi # lo # typ # rest) s0"
    and sk: "\<And>n. skip n s0 = s\<lparr>chars := drop (Suc (2 * n)) (dropWhile isspace (chars s))\<rparr>"
    by blast
  note 1 = holds_Cons [OF h0]
  note 2 = holds_Cons2 [OF 1(2)]
  note 3 = holds_Cons [OF 2(2)]
  have "skip (Suc 0) (skip 2 (skip (Suc 0) s0)) = skip 4 s0"
    by (simp add: skip_def)
  then have s4: "skip (Suc 0) (skip 2 (skip (Suc 0) s0)) = after_record [len, hi, lo, typ] s"
    by (simp add: sk after_record_def)
  show "holds rest (after_record [len, hi, lo, typ] s)" using 3(2) s4 by simp
  show "read_record c0 line base data s =
           (let cs = len + lo + hi + typ; s4 = after_record [len, hi, lo, typ] s
            in if typ = 0 then data_record line base data len (address16 hi lo) cs s4
               else if typ = 1 then Return
               else if typ = 2 then address_record 4 line data len cs s4
               else if typ = 4 then address_record 16 line data len cs s4
               else Throw (UnknownRecordType line typ))"
    unfolding read_record_def e
    by (simp add: 1(1) 2(1) 3(1) s4 ucast_address16 ucast_ucast8 Let_def)
qed

lemma data_record_at:
  assumes "holds (payload @ [c]) s" and "length payload = unat len"
  shows "data_record line base data len addr cs s =
           (if c \<noteq> - (cs + sum_list payload)
              then Throw (WrongCheckSum line c (- (cs + sum_list payload)))
            else Next base (store_record (ucast addr + base) payload data) (skip (Suc (length payload)) s))"
proof -
  from holds_append [OF assms(1), of cs "[]"] have
    r: "read_data (unat len) cs [] s = (payload, cs + sum_list payload, skip (length payload) s)"
    and h: "holds [c] (skip (length payload) s)"
    using assms(2) by simp_all
  note 1 = holds_Cons [OF h]
  have n: "1 + NOT x = - x" for x :: uint8 by (simp add: minus_eq_not_plus_1)
  show ?thesis
    unfolding data_record_def r
    by (simp add: 1(1) skip_skip n Let_def ucast_ucast8)
qed

lemma address_record_at:
  assumes "holds [vh, vl, c] s"
  shows "address_record shift line data 2 cs s =
           (if c \<noteq> - (cs + vl + vh)
              then Throw (WrongCheckSum line c (- (cs + vl + vh)))
            else Next (push_bit shift (ucast (address16 vh vl))) data (skip 3 s))"
proof -
  note 1 = holds_Cons2 [OF assms]
  note 2 = holds_Cons [OF 1(2)]
  have n: "1 + NOT x = - x" for x :: uint8 by (simp add: minus_eq_not_plus_1)
  have k: "skip (Suc 0) (skip 2 s) = skip 3 s" by (simp add: skip_def)
  show ?thesis
    unfolding address_record_def
    by (simp add: 1(1) 2(1) k n ucast_address16 Let_def ucast_ucast8)
qed


section \<open>The decoder on well-formed records\<close>

lemma unat_uint8_less: "unat (x::uint8) < 256"
  using unsigned_less [of x, where 'a = nat] by simp

lemma uint_minus_uint8: "uint (- x) = (256 - uint x) mod 256" for x :: uint8
proof -
  have "uint (- x) = (- uint x) mod 256" by (simp add: uint_word_ariths)
  also have "\<dots> = (256 - uint x) mod 256" by (metis minus_mod_self1)
  finally show ?thesis .
qed


lemma unat_minus_uint8: "unat (- x) = (256 - unat x) mod 256" for x :: uint8
proof -
  have "unat x < 256" by (rule unat_uint8_less)
  then have "int (256 - unat x) = 256 - uint x"
    unfolding uint_nat by linarith
  then have "int ((256 - unat x) mod 256) = (256 - uint x) mod 256"
    unfolding zmod_int by simp
  also have "\<dots> = uint (- x)" by (rule uint_minus_uint8 [symmetric])
  also have "\<dots> = int (unat (- x))" by (rule uint_nat)
  finally show ?thesis by linarith
qed


lemma read_loop_Throw:
  "good s \<Longrightarrow> read_record c0 line base data s = Throw e \<Longrightarrow>
   read_loop c0 line base data s = (Some e, data)"
  by (simp add: read_loop.simps)

lemma accepted_data_record:
  assumes "record_at (len # hi # lo # 0 # payload @ [c]) s" and "length payload = unat len"
  shows "read_record c0 line base data s =
           (if c \<noteq> - sum_list (len # hi # lo # 0 # payload)
              then Throw (WrongCheckSum line c (- sum_list (len # hi # lo # 0 # payload)))
            else Next base (store_record (ucast (address16 hi lo) + base) payload data)
                   (after_record (len # hi # lo # 0 # payload @ [c]) s))"
proof -
  note r = read_record_at(1) [OF assms(1), of c0 line base data] read_record_at(2) [OF assms(1)]
  have k: "skip (Suc (length payload)) (after_record [len, hi, lo, 0] s) =
           after_record (len # hi # lo # 0 # payload @ [c]) s"
    by (simp add: skip_def after_record_def add.commute)
  show ?thesis
    by (simp add: r(1) data_record_at [OF r(2) assms(2)] k algebra_simps)
qed

lemma accepted_address_record:
  assumes "record_at [2, hi, lo, typ, vh, vl, c] s" and "typ = 2 \<or> typ = 4"
  shows "read_record c0 line base data s =
           (if c \<noteq> - sum_list [2, hi, lo, typ, vh, vl]
              then Throw (WrongCheckSum line c (- sum_list [2, hi, lo, typ, vh, vl]))
            else Next (push_bit (if typ = 2 then 4 else 16) (ucast (address16 vh vl))) data
                   (after_record [2, hi, lo, typ, vh, vl, c] s))"
proof -
  note r = read_record_at(1) [OF assms(1), of c0 line base data] read_record_at(2) [OF assms(1)]
  have k: "skip 3 (after_record [2, hi, lo, typ] s) = after_record [2, hi, lo, typ, vh, vl, c] s"
    by (simp add: skip_def after_record_def)
  have e: "2 + lo + hi + typ + vl + vh = sum_list [2, hi, lo, typ, vh, vl]"
    by (simp add: algebra_simps)
  have d: "read_record c0 line base data s =
             address_record (if typ = 2 then 4 else 16) line data 2 (2 + lo + hi + typ)
               (after_record [2, hi, lo, typ] s)"
    using assms(2) by (auto simp: r(1) Let_def)
  show ?thesis
    unfolding d address_record_at [OF r(2)] k e ..
qed

section \<open>Claims\<close>

text \<open>
  C4. For a data record, and for an extended segment or linear address record of the
  declared length 2 that its case demands, the decoder goes on to the next record exactly
  when the trailing check sum byte is \<open>(256 - s) mod 256\<close>, with \<open>s\<close> the 8-bit sum of the
  length byte, both address bytes, the type byte and every data or extension byte. On any
  other check sum byte it throws \<open>WrongCheckSum\<close> with the line counter, the byte of the record
  and the computed one, and that exception leaves \<^verbatim>\<open>read\<close>.
\<close>

theorem checksum_verified:
  assumes "record_at (len # hi # lo # typ # payload @ [c]) s"
    and "typ = 0 \<and> length payload = unat len \<or>
         (typ = 2 \<or> typ = 4) \<and> len = 2 \<and> length payload = 2"
  shows "((\<exists>base' data' s'. read_record c0 line base data s = Next base' data' s') \<longleftrightarrow>
            unat c = (256 - unat (sum_list (len # hi # lo # typ # payload))) mod 256) \<and>
         (unat c \<noteq> (256 - unat (sum_list (len # hi # lo # typ # payload))) mod 256 \<longrightarrow>
            read_record c0 line base data s =
              Throw (WrongCheckSum line c (- sum_list (len # hi # lo # typ # payload))) \<and>
            read_loop c0 line base data s =
              (Some (WrongCheckSum line c (- sum_list (len # hi # lo # typ # payload))), data))"
proof -
  let ?sum = "sum_list (len # hi # lo # typ # payload)"
  have g: "good s" using assms(1) by (simp add: record_at_def)
  have u: "unat c = (256 - unat ?sum) mod 256 \<longleftrightarrow> c = - ?sum"
    unfolding unat_minus_uint8 [symmetric] by (simp add: word_unat_eq_iff)
  have r: "read_record c0 line base data s =
             (if c \<noteq> - ?sum then Throw (WrongCheckSum line c (- ?sum))
              else Next (if typ = 0 then base
                         else push_bit (if typ = 2 then 4 else 16) (ucast (address16 (payload ! 0) (payload ! 1))))
                     (if typ = 0 then store_record (ucast (address16 hi lo) + base) payload data else data)
                     (after_record (len # hi # lo # typ # payload @ [c]) s))"
  proof (cases "typ = 0")
    case True
    with assms show ?thesis using accepted_data_record [of len hi lo payload c s c0 line base data]
      by simp
  next
    case False
    with assms(2) have t: "typ = 2 \<or> typ = 4" and l: "len = 2" and p: "length payload = 2" by auto
    from p obtain vh vl where pl: "payload = [vh, vl]"
      by (cases payload; cases "tl payload") auto
    from assms(1) have "record_at [2, hi, lo, typ, vh, vl, c] s" by (simp add: l pl)
    from accepted_address_record [OF this t, of c0 line base data] False show ?thesis
      by (simp add: l pl)
  qed
  show ?thesis
    unfolding u using g by (auto simp: r read_loop.simps)
qed


text \<open>
  The theorem at a data record that is accepted, and at a linear address record whose
  check sum is off by one.
\<close>

theorem checksum_verified_witness:
  "record_at [1, 0, 0, 0, 0x55, 0xAA] (open_stream '':0100000055AA'') \<and>
   (\<exists>base' data' s'. read_record CHR ''x'' 0 0 [] (open_stream '':0100000055AA'') = Next base' data' s') \<and>
   record_at [2, 0, 0, 4, 0, 1, 0xF8] (open_stream '':020000040001F8'') \<and>
   read_loop CHR ''x'' 0 0 [] (open_stream '':020000040001F8'') = (Some (WrongCheckSum 0 0xF8 0xF9), [])"
proof -
  have a: "record_at ([1, 0, 0, 0] @ [0x55] @ [0xAA]) (open_stream '':0100000055AA'')"
    by (simp add: record_at_def open_stream_def isspace_def hex_value_def)
  have b: "record_at ([2, 0, 0, 4] @ [0, 1] @ [0xF8]) (open_stream '':020000040001F8'')"
    by (simp add: record_at_def open_stream_def isspace_def hex_value_def)
  from a have a': "record_at (1 # 0 # 0 # 0 # [0x55] @ [0xAA]) (open_stream '':0100000055AA'')" by simp
  from b have b': "record_at (2 # 0 # 0 # 4 # [0, 1] @ [0xF8]) (open_stream '':020000040001F8'')" by simp
  from checksum_verified [OF a', of "CHR ''x''" 0 0 "[]"]
  have 1: "\<exists>base' data' s'. read_record CHR ''x'' 0 0 [] (open_stream '':0100000055AA'') = Next base' data' s'"
    by simp
  from checksum_verified [OF b', of "CHR ''x''" 0 0 "[]"]
  have 2: "read_loop CHR ''x'' 0 0 [] (open_stream '':020000040001F8'') = (Some (WrongCheckSum 0 0xF8 0xF9), [])"
    by simp
  from a b 1 2 show ?thesis by simp
qed


lemma sum_list_update_uint8:
  "i < length xs \<Longrightarrow> sum_list (xs[i := b]) = sum_list xs - xs ! i + (b :: uint8)"
proof (induction xs arbitrary: i)
  case Nil
  then show ?case by simp
next
  case (Cons x xs)
  then show ?case by (cases i) simp_all
qed

lemma checksum_changes:
  fixes S x b :: uint8
  assumes "b \<noteq> x"
  shows "- S \<noteq> - (S - x + b)"
proof
  assume "- S = - (S - x + b)"
  then have "S = S - x + b" by (simp only: neg_equal_iff_equal)
  then have "S + x = S + b" by (simp add: algebra_simps)
  then have "x = b" by (simp only: add_left_cancel)
  with assms show False by simp
qed


lemma update_behind4: "(x1 # x2 # x3 # x4 # xs)[4 + k := v] = x1 # x2 # x3 # x4 # xs[k := v]"
  by (simp add: numeral_eq_Suc)

text \<open>
  C5. Take a well-formed data record: length byte \<open>len\<close>, address bytes \<open>hi\<close> and \<open>lo\<close>,
  type 0, \<open>len\<close> payload bytes, and the check sum \<open>c\<close> of these. Change one address byte
  (index 1 or 2 of the record) or one payload byte (index 4 onwards) to a different value
  \<open>b\<close> and leave \<open>c\<close> as it is. When the decoder comes to the changed record, with any line
  counter, base address and model, \<^verbatim>\<open>read\<close> throws \<open>WrongCheckSum\<close> with that line counter,
  \<open>c\<close> and the check sum it computed, which differs from \<open>c\<close>.
\<close>

theorem checksum_sensitivity:
  assumes "length payload = unat len"
    and "c = - sum_list (len # hi # lo # 0 # payload)"
    and "i = 1 \<or> i = 2 \<or> 4 \<le> i \<and> i < 4 + length payload"
    and "b \<noteq> (len # hi # lo # 0 # payload) ! i"
    and "record_at ((len # hi # lo # 0 # payload)[i := b] @ [c]) s"
  shows "c \<noteq> - sum_list ((len # hi # lo # 0 # payload)[i := b]) \<and>
         read_loop c0 line base data s =
           (Some (WrongCheckSum line c (- sum_list ((len # hi # lo # 0 # payload)[i := b]))), data)"
proof -
  let ?old = "len # hi # lo # 0 # payload"
  let ?new = "?old[i := b]"
  have i: "i < length ?old" using assms(3) by auto
  have s: "sum_list ?new = sum_list ?old - ?old ! i + b"
    by (rule sum_list_update_uint8 [OF i])
  have ne: "c \<noteq> - sum_list ?new"
    unfolding s assms(2) using assms(4) by (rule checksum_changes)
  obtain hi' lo' payload' where new: "?new = len # hi' # lo' # 0 # payload'"
    and l: "length payload' = unat len"
  proof -
    consider "i = 1" | "i = 2" | "4 \<le> i \<and> i < 4 + length payload"
      using assms(3) by blast
    then show ?thesis
    proof cases
      case 1
      then show ?thesis using that [of b lo payload] assms(1) by simp
    next
      case 2
      have "?old[2 := b] = len # hi # b # 0 # payload" by (simp add: numeral_2_eq_2)
      with 2 show ?thesis using that [of hi b payload] assms(1) by simp
    next
      case 3
      define k where "k = i - 4"
      with 3 have ik: "i = 4 + k" and k: "k < length payload" by linarith+
      have "?old[4 + k := b] = len # hi # lo # 0 # payload[k := b]" by (rule update_behind4)
      with ik show ?thesis using that [of hi lo "payload[k := b]"] assms(1) by simp
    qed
  qed
  from assms(5) have r: "record_at (len # hi' # lo' # 0 # payload' @ [c]) s"
    by (simp only: new append_Cons)
  have g: "good s" using assms(5) by (simp add: record_at_def)
  have ne': "c \<noteq> - sum_list (len # hi' # lo' # 0 # payload')" using ne unfolding new .
  have "read_record c0 line base data s =
          Throw (WrongCheckSum line c (- sum_list (len # hi' # lo' # 0 # payload')))"
    using accepted_data_record [OF r l, of c0 line base data] ne' by simp
  then have "read_record c0 line base data s = Throw (WrongCheckSum line c (- sum_list ?new))"
    by (simp only: new)
  with g ne show ?thesis by (simp add: read_loop_Throw)
qed


text \<open>The low address byte of \<^verbatim>\<open>:0100000055AA\<close> changed from \<^verbatim>\<open>00\<close> to \<^verbatim>\<open>21\<close>.\<close>

theorem checksum_sensitivity_witness:
  "record_at [1, 0, 0x21, 0, 0x55, 0xAA] (open_stream '':0100210055AA'') \<and>
   read_loop CHR ''x'' 7 0 [] (open_stream '':0100210055AA'') = (Some (WrongCheckSum 7 0xAA 0x89), [])"
proof -
  have u: "(1 # 0 # 0 # 0 # [0x55])[2 := 0x21] = [1, 0, 0x21, 0, 0x55 :: uint8]"
    by (simp add: numeral_2_eq_2)
  have r: "record_at [1, 0, 0x21, 0, 0x55, 0xAA] (open_stream '':0100210055AA'')"
    by (simp add: record_at_def open_stream_def isspace_def hex_value_def)
  then have r': "record_at ((1 # 0 # 0 # 0 # [0x55])[2 := 0x21] @ [0xAA]) (open_stream '':0100210055AA'')"
    unfolding u by simp
  have n: "(1 # 0 # 0 # 0 # [0x55 :: uint8]) ! 2 = 0" by (simp add: numeral_2_eq_2)
  have p1: "length [0x55 :: uint8] = unat (1 :: uint8)" by simp
  have p2: "(0xAA :: uint8) = - sum_list (1 # 0 # 0 # 0 # [0x55])" by simp
  have p3: "(2::nat) = 1 \<or> (2::nat) = 2 \<or> 4 \<le> (2::nat) \<and> (2::nat) < 4 + length [0x55 :: uint8]" by simp
  have p4: "(0x21 :: uint8) \<noteq> (1 # 0 # 0 # 0 # [0x55]) ! 2" unfolding n by simp
  have "read_loop CHR ''x'' 7 0 [] (open_stream '':0100210055AA'') =
          (Some (WrongCheckSum 7 0xAA (- sum_list ((1 # 0 # 0 # 0 # [0x55])[2 := 0x21]))), [])"
    using checksum_sensitivity [OF p1 p2 p3 p4 r', of "CHR ''x''" 7 0 "[]"] ..
  then have "read_loop CHR ''x'' 7 0 [] (open_stream '':0100210055AA'') = (Some (WrongCheckSum 7 0xAA 0x89), [])"
    unfolding u by simp
  with r show ?thesis by simp
qed


lemma map_of_assign: "map_of (assign address recordData data) address = Some recordData"
  by (induction data) auto

lemma rejected_address_record:
  assumes "record_at (len # hi # lo # typ # rest) s" and "typ = 2 \<or> typ = 4" and "len \<noteq> 2"
  shows "read_record c0 line base data s = Throw (InvalidRecord line)"
  using assms(2,3)
  by (auto simp: read_record_at(1) [OF assms(1)] address_record_def Let_def)

text \<open>
  The base address. An extended segment address record of declared length 2 with value
  \<open>v\<close> makes \<open>v << 4\<close> the base address, an extended linear address record \<open>v << 16\<close>,
  whatever the base address was; with another declared length either is an
  \<open>InvalidRecord\<close>. A data record is handed to the insertion with its 16-bit address plus the
  base address, and when no chunk takes it by fusion that is the key of its chunk. (Where
  the bytes end up when a chunk takes them at its head is shown further down.)
\<close>

lemma extended_addressing:
  "(record_at [2, hi, lo, 2, vh, vl, c] s \<and> c = - sum_list [2, hi, lo, 2, vh, vl] \<longrightarrow>
      read_record c0 line base data s =
        Next (push_bit 4 (ucast (address16 vh vl))) data
          (after_record [2, hi, lo, 2, vh, vl, c] s)) \<and>
   (record_at [2, hi, lo, 4, vh, vl, c] s \<and> c = - sum_list [2, hi, lo, 4, vh, vl] \<longrightarrow>
      read_record c0 line base data s =
        Next (push_bit 16 (ucast (address16 vh vl))) data
          (after_record [2, hi, lo, 4, vh, vl, c] s)) \<and>
   (record_at (len # hi # lo # typ # rest) s \<and> (typ = 2 \<or> typ = 4) \<and> len \<noteq> 2 \<longrightarrow>
      read_record c0 line base data s = Throw (InvalidRecord line)) \<and>
   (record_at (len # hi # lo # 0 # payload @ [c]) s \<and> length payload = unat len \<and>
    c = - sum_list (len # hi # lo # 0 # payload) \<longrightarrow>
      read_record c0 line base data s =
        Next base (store_record (base + ucast (address16 hi lo)) payload data)
          (after_record (len # hi # lo # 0 # payload @ [c]) s)) \<and>
   (fuse address payload data = None \<longrightarrow>
      map_of (store_record address payload data) address = Some payload)"
proof (intro conjI impI)
  assume a: "record_at [2, hi, lo, 2, vh, vl, c] s \<and> c = - sum_list [2, hi, lo, 2, vh, vl]"
  then have r: "record_at [2, hi, lo, 2, vh, vl, c] s" and c: "c = - sum_list [2, hi, lo, 2, vh, vl]"
    by blast+
  show "read_record c0 line base data s =
        Next (push_bit 4 (ucast (address16 vh vl))) data (after_record [2, hi, lo, 2, vh, vl, c] s)"
    using accepted_address_record [OF r, of c0 line base data] c by simp
next
  assume a: "record_at [2, hi, lo, 4, vh, vl, c] s \<and> c = - sum_list [2, hi, lo, 4, vh, vl]"
  then have r: "record_at [2, hi, lo, 4, vh, vl, c] s" and c: "c = - sum_list [2, hi, lo, 4, vh, vl]"
    by blast+
  show "read_record c0 line base data s =
        Next (push_bit 16 (ucast (address16 vh vl))) data (after_record [2, hi, lo, 4, vh, vl, c] s)"
    using accepted_address_record [OF r, of c0 line base data] c by simp
next
  assume "record_at (len # hi # lo # typ # rest) s \<and> (typ = 2 \<or> typ = 4) \<and> len \<noteq> 2"
  then show "read_record c0 line base data s = Throw (InvalidRecord line)"
    using rejected_address_record by blast
next
  assume a: "record_at (len # hi # lo # 0 # payload @ [c]) s \<and> length payload = unat len \<and>
    c = - sum_list (len # hi # lo # 0 # payload)"
  then have r: "record_at (len # hi # lo # 0 # payload @ [c]) s" and l: "length payload = unat len"
    and c: "c = - sum_list (len # hi # lo # 0 # payload)" by blast+
  show "read_record c0 line base data s =
        Next base (store_record (base + ucast (address16 hi lo)) payload data)
          (after_record (len # hi # lo # 0 # payload @ [c]) s)"
    using accepted_data_record [OF r l, of c0 line base data] c by (simp add: add.commute)
next
  assume "fuse address payload data = None"
  then show "map_of (store_record address payload data) address = Some payload"
    by (simp add: store_record_def map_of_assign)
qed


text \<open>
  Two streams into the empty model: a linear address record with value \<open>0x0001\<close>, or a
  segment address record with value \<open>0x1000\<close>, then one data byte at \<open>0x0020\<close> and the
  end-of-file record; and a linear address record of declared length 3.
\<close>

lemma extended_addressing_example:
  "read CHR ''x'' (open_stream ('':020000040001F9'' @ [CHR 0x0A] @ '':01002000AA35'' @ [CHR 0x0A] @ '':00000001FF'')) []
     = (None, [(0x00010020, [0xAA])]) \<and>
   read CHR ''x'' (open_stream ('':020000021000EC'' @ [CHR 0x0A] @ '':01002000AA35'' @ [CHR 0x0A] @ '':00000001FF'')) []
     = (None, [(0x00010020, [0xAA])]) \<and>
   read CHR ''x'' (open_stream '':03000004000100F8'') [] = (Some (InvalidRecord 0), [])"
proof -
  let ?tail = "[CHR 0x0A] @ '':01002000AA35'' @ [CHR 0x0A] @ '':00000001FF''"
  let ?s1 = "open_stream ('':020000040001F9'' @ ?tail)"
  let ?s2 = "open_stream ('':020000021000EC'' @ ?tail)"
  let ?s3 = "open_stream '':03000004000100F8''"
  let ?t = "\<lparr>chars = ?tail, good = True\<rparr>"
  note ea = extended_addressing [where ?c0.0 = "CHR ''x''" and line = 0 and base = 0 and data = "[]"]
  have r1: "record_at [2, 0, 0, 4, 0, 1, 0xF9] ?s1"
    by (simp add: record_at_def open_stream_def isspace_def hex_value_def)
  have r2: "record_at [2, 0, 0, 2, 0x10, 0, 0xEC] ?s2"
    by (simp add: record_at_def open_stream_def isspace_def hex_value_def)
  have r3: "record_at (3 # 0 # 0 # 4 # [0, 1, 0, 0xF8]) ?s3"
    by (simp add: record_at_def open_stream_def isspace_def hex_value_def)
  have a1: "after_record [2, 0, 0, 4, 0, 1, 0xF9] ?s1 = ?t"
    by (simp add: after_record_def open_stream_def isspace_def)
  have a2: "after_record [2, 0, 0, 2, 0x10, 0, 0xEC] ?s2 = ?t"
    by (simp add: after_record_def open_stream_def isspace_def)
  have v1: "push_bit 16 (ucast (address16 0 1)) = (0x10000 :: uint32)"
    by (simp add: address16_def)
  have v2: "push_bit 4 (ucast (address16 0x10 0)) = (0x10000 :: uint32)"
    by (simp add: address16_def)
  have c1: "(0xF9 :: uint8) = - sum_list [2, 0, 0, 4, 0, 1]" by simp
  have c2: "(0xEC :: uint8) = - sum_list [2, 0, 0, 2, 0x10, 0]" by simp
  have "read_record CHR ''x'' 0 0 [] ?s1 =
          Next (push_bit 16 (ucast (address16 0 1))) [] (after_record [2, 0, 0, 4, 0, 1, 0xF9] ?s1)"
    using ea [of 0 0 0 1 "0xF9" ?s1] r1 c1 by blast
  then have s1: "read_record CHR ''x'' 0 0 [] ?s1 = Next 0x10000 [] ?t"
    by (simp only: a1 v1)
  have "read_record CHR ''x'' 0 0 [] ?s2 =
          Next (push_bit 4 (ucast (address16 0x10 0))) [] (after_record [2, 0, 0, 2, 0x10, 0, 0xEC] ?s2)"
    using ea [of 0 0 "0x10" 0 "0xEC" ?s2] r2 c2 by blast
  then have s2: "read_record CHR ''x'' 0 0 [] ?s2 = Next 0x10000 [] ?t"
    by (simp only: a2 v2)
  have n3: "(4 :: uint8) = 2 \<or> (4 :: uint8) = 4" "(3 :: uint8) \<noteq> 2" by simp_all
  have s3: "read_record CHR ''x'' 0 0 [] ?s3 = Throw (InvalidRecord 0)"
    using ea [of 0 0 _ _ _ ?s3 3 4 "[0, 1, 0, 0xF8]"] r3 n3 by blast
  have rest: "read_loop CHR ''x'' 1 0x10000 [] ?t = (None, [(0x00010020, [0xAA])])"
    by code_simp
  note rest' = rest [simplified]
  have g: "good ?s1" "good ?s2" "good ?s3" by (simp_all add: open_stream_def)
  have "read CHR ''x'' ?s1 [] = (None, [(0x00010020, [0xAA])])"
    unfolding read_def by (subst read_loop.simps) (simp only: g s1 if_True step.case, simp add: rest')
  moreover have "read CHR ''x'' ?s2 [] = (None, [(0x00010020, [0xAA])])"
    unfolding read_def by (subst read_loop.simps) (simp only: g s2 if_True step.case, simp add: rest')
  moreover have "read CHR ''x'' ?s3 [] = (Some (InvalidRecord 0), [])"
    unfolding read_def by (subst read_loop.simps) (simp only: g s3 if_True step.case)
  ultimately show ?thesis by blast
qed


subsection \<open>The invariant of the model\<close>

text \<open>No two chunks touch or overlap: the invariant the spec gives for the model.\<close>

definition separated :: "ChunkMap \<Rightarrow> bool" where
  "separated data =
     (\<forall>(a1, b1) \<in> set data. \<forall>(a2, b2) \<in> set data.
        a1 < a2 \<longrightarrow> unat a1 + length b1 < unat a2)"

subsection \<open>What an insertion does to the chunks\<close>

lemma ordered_Cons: "ordered (c # m) \<longleftrightarrow> (\<forall>d \<in> set m. fst c < fst d) \<and> ordered m"
proof (induction m arbitrary: c)
  case Nil
  show ?case by simp
next
  case (Cons d m)
  show ?case using Cons [of d] by (auto intro: less_trans)
qed

lemma ordered_keys: "map fst m' = map fst m \<Longrightarrow> ordered m' = ordered m"
proof (induction m arbitrary: m')
  case Nil
  then show ?case by simp
next
  case (Cons c m)
  then obtain c' m'' where m': "m' = c' # m''" and c: "fst c' = fst c" and m: "map fst m'' = map fst m"
    by (cases m') auto
  have "set (map fst m'') = set (map fst m)" using m by simp
  then have "fst ` set m'' = fst ` set m" by simp
  then have "(\<forall>d \<in> set m''. fst c < fst d) = (\<forall>d \<in> set m. fst c < fst d)"
    by (metis (no_types, lifting) image_iff)
  with Cons.IH [OF m] c show ?case by (simp add: ordered_Cons m')
qed

lemma set_assign: "set (assign address recordData m) \<subseteq> insert (address, recordData) (set m)"
  by (induction m) (auto split: if_splits)

lemma map_of_assign_other:
  "k \<noteq> address \<Longrightarrow> map_of (assign address recordData m) k = map_of m k"
  by (induction m) auto

lemma ordered_assign: "ordered m \<Longrightarrow> ordered (assign address recordData m)"
proof (induction m)
  case Nil
  show ?case by simp
next
  case (Cons c m)
  obtain first second where c: "c = (first, second)" by (cases c)
  from Cons.prems have lt: "\<forall>d \<in> set m. first < fst d" and om: "ordered m"
    by (simp_all add: ordered_Cons c)
  show ?case
  proof (cases "address < first")
    case True
    with lt om show ?thesis by (auto simp: c ordered_Cons intro: less_trans)
  next
    case False
    show ?thesis
    proof (cases "address = first")
      case True
      with lt om show ?thesis by (simp add: c ordered_Cons)
    next
      case ne: False
      with False have "first < address" by simp
      with lt set_assign [of address recordData m] Cons.IH [OF om] False ne
      show ?thesis by (auto simp: c ordered_Cons)
    qed
  qed
qed

lemma keys_assign:
  "ordered m \<Longrightarrow> address \<in> fst ` set m \<Longrightarrow> map fst (assign address recordData m) = map fst m"
proof (induction m)
  case Nil
  then show ?case by simp
next
  case (Cons c m)
  obtain first second where c: "c = (first, second)" by (cases c)
  from Cons.prems(1) have lt: "\<forall>d \<in> set m. first < fst d" and om: "ordered m"
    by (simp_all add: ordered_Cons c)
  show ?case
  proof (cases "address = first")
    case True
    then show ?thesis by (simp add: c)
  next
    case False
    with Cons.prems(2) have in_m: "address \<in> fst ` set m" by (auto simp: c)
    with lt have "first < address" by auto
    with Cons.IH [OF om in_m] False show ?thesis by (simp add: c)
  qed
qed

lemma fuse_None:
  "fuse address recordData m = None \<longleftrightarrow>
     (\<forall>(first, second) \<in> set m.
        unat address \<noteq> unat first + length second \<and>
        unat address + length recordData \<noteq> unat first)"
  by (induction m) (auto split: if_splits)

lemma fuse_Some:
  "fuse address recordData m = Some m' \<Longrightarrow>
     map fst m' = map fst m \<and>
     (\<exists>first second. (first, second) \<in> set m \<and>
        (unat address = unat first + length second \<and>
           set m' \<subseteq> insert (first, second @ recordData) (set m) \<or>
         unat address \<noteq> unat first + length second \<and>
         unat address + length recordData = unat first \<and>
           set m' \<subseteq> insert (first, recordData @ second) (set m)))"
proof (induction m arbitrary: m')
  case Nil
  then show ?case by simp
next
  case (Cons c m)
  obtain first second where c: "c = (first, second)" by (cases c)
  show ?case
  proof (cases "unat address = unat first + length second")
    case True
    with Cons.prems have "m' = (first, second @ recordData) # m" by (simp add: c)
    with True show ?thesis by (auto simp: c)
  next
    case False
    show ?thesis
    proof (cases "unat address + length recordData = unat first")
      case True
      with False Cons.prems have "m' = (first, recordData @ second) # m" by (simp add: c)
      with True False show ?thesis by (auto simp: c)
    next
      case nh: False
      with False Cons.prems obtain m'' where f: "fuse address recordData m = Some m''"
        and m': "m' = (first, second) # m''" by (auto simp: c)
      from Cons.IH [OF f] show ?thesis by (auto simp: c m')
    qed
  qed
qed


lemma unat_less_uint32: "a < b \<longleftrightarrow> unat a < unat b" for a b :: uint32
  by (rule word_less_nat_alt)

lemma fuse_Some_split:
  "fuse address recordData m = Some m' \<Longrightarrow>
     \<exists>pre first second post.
        m = pre @ (first, second) # post \<and>
        (unat address = unat first + length second \<and>
           m' = pre @ (first, second @ recordData) # post \<or>
         unat address \<noteq> unat first + length second \<and>
         unat address + length recordData = unat first \<and>
           m' = pre @ (first, recordData @ second) # post)"
proof (induction m arbitrary: m')
  case Nil
  then show ?case by simp
next
  case (Cons c m)
  obtain first second where c: "c = (first, second)" by (cases c)
  show ?case
  proof (cases "unat address = unat first + length second")
    case True
    with Cons.prems have "m' = [] @ (first, second @ recordData) # m" by (simp add: c)
    moreover have "c # m = [] @ (first, second) # m" by (simp add: c)
    ultimately show ?thesis using True by blast
  next
    case False
    show ?thesis
    proof (cases "unat address + length recordData = unat first")
      case True
      with False Cons.prems have "m' = [] @ (first, recordData @ second) # m" by (simp add: c)
      moreover have "c # m = [] @ (first, second) # m" by (simp add: c)
      ultimately show ?thesis using True False by blast
    next
      case nh: False
      with False Cons.prems obtain m'' where f: "fuse address recordData m = Some m''"
        and m': "m' = (first, second) # m''" by (auto simp: c)
      from Cons.IH [OF f] obtain pre f1 s1 post where
        m: "m = pre @ (f1, s1) # post" and
        alt: "unat address = unat f1 + length s1 \<and>
                m'' = pre @ (f1, s1 @ recordData) # post \<or>
              unat address \<noteq> unat f1 + length s1 \<and>
              unat address + length recordData = unat f1 \<and>
                m'' = pre @ (f1, recordData @ s1) # post"
        by blast
      have "c # m = (c # pre) @ (f1, s1) # post" by (simp add: m)
      moreover from alt have
        "unat address = unat f1 + length s1 \<and>
           m' = (c # pre) @ (f1, s1 @ recordData) # post \<or>
         unat address \<noteq> unat f1 + length s1 \<and>
         unat address + length recordData = unat f1 \<and>
           m' = (c # pre) @ (f1, recordData @ s1) # post"
        by (auto simp: m' c)
      ultimately show ?thesis by blast
    qed
  qed
qed

lemma set_assign_new:
  "address \<notin> fst ` set m \<Longrightarrow>
   set (assign address recordData m) = insert (address, recordData) (set m)"
  by (induction m) (auto split: if_splits)

text \<open>
  C2, as the code has it. Let the chunks be apart before an insertion and let the new run
  lie clear of every chunk, except that it may start exactly where one chunk ends: every
  chunk either ends at or before the first address of the run, or starts strictly behind
  its end. Then the chunks are apart after the insertion and the keys stay strictly
  ascending. If a chunk ends at the first address of the run, the bytes of the run are
  appended to that chunk and nothing else changes; otherwise no chunk has the address of
  the run as its key, and the model gains the run as a chunk of its own and nothing else.
  (A run that reaches into a chunk, or that ends where another chunk starts, is outside
  this statement.)
\<close>

theorem store_record_separated:
  assumes "ordered data" and "separated data"
    and "\<forall>(first, second) \<in> set data.
           unat first + length second \<le> unat address \<or>
           unat address + length recordData < unat first"
  shows "separated (store_record address recordData data) \<and>
         ordered (store_record address recordData data) \<and>
         ((\<exists>pre first second post.
             data = pre @ (first, second) # post \<and>
             unat address = unat first + length second \<and>
             store_record address recordData data = pre @ (first, second @ recordData) # post) \<or>
          address \<notin> fst ` set data \<and>
          (\<forall>(first, second) \<in> set data. unat address \<noteq> unat first + length second) \<and>
          set (store_record address recordData data) = insert (address, recordData) (set data))"
proof (cases "fuse address recordData data")
  case None
  then have s: "store_record address recordData data = assign address recordData data"
    by (simp add: store_record_def)
  have sub: "set (assign address recordData data) \<subseteq> insert (address, recordData) (set data)"
    by (rule set_assign)
  have "separated (assign address recordData data)"
    unfolding separated_def
  proof (intro ballI, clarify)
    fix a1 b1 a2 b2
    assume 1: "(a1, b1) \<in> set (assign address recordData data)"
      and 2: "(a2, b2) \<in> set (assign address recordData data)" and lt: "a1 < a2"
    from lt have ult: "unat a1 < unat a2" by (simp add: unat_less_uint32)
    from 1 sub have c1: "(a1, b1) = (address, recordData) \<or> (a1, b1) \<in> set data" by auto
    from 2 sub have c2: "(a2, b2) = (address, recordData) \<or> (a2, b2) \<in> set data" by auto
    show "unat a1 + length b1 < unat a2"
    proof (cases "(a1, b1) \<in> set data")
      case old1: True
      show ?thesis
      proof (cases "(a2, b2) \<in> set data")
        case True
        with old1 lt assms(2) show ?thesis by (auto simp: separated_def)
      next
        case False
        with c2 have n2: "a2 = address" "b2 = recordData" by simp_all
        from old1 assms(3) have "unat a1 + length b1 \<le> unat address \<or>
            unat address + length recordData < unat a1" by auto
        moreover from old1 None have "unat address \<noteq> unat a1 + length b1"
          by (auto simp: fuse_None)
        ultimately show ?thesis using ult n2 by auto
      qed
    next
      case False
      with c1 have n1: "a1 = address" "b1 = recordData" by simp_all
      with lt c2 have old2: "(a2, b2) \<in> set data" by auto
      with assms(3) have "unat a2 + length b2 \<le> unat address \<or>
          unat address + length recordData < unat a2" by auto
      with ult n1 show ?thesis by auto
    qed
  qed
  then have sep: "separated (store_record address recordData data)" by (simp add: s)
  have ord: "ordered (store_record address recordData data)"
    using ordered_assign [OF assms(1)] by (simp add: s)
  from None have nt: "\<forall>(first, second) \<in> set data. unat address \<noteq> unat first + length second"
    by (auto simp: fuse_None)
  have new: "address \<notin> fst ` set data"
  proof
    assume "address \<in> fst ` set data"
    then obtain old where old: "(address, old) \<in> set data" by force
    with assms(3) have "unat address + length old \<le> unat address \<or>
        unat address + length recordData < unat address" by auto
    then have "unat address = unat address + length old" by simp
    with old nt show False by auto
  qed
  then have "set (store_record address recordData data) = insert (address, recordData) (set data)"
    by (simp add: s set_assign_new)
  with sep ord new nt show ?thesis by blast
next
  case (Some m')
  then have s: "store_record address recordData data = m'" by (simp add: store_record_def)
  from fuse_Some [OF Some] obtain first second where
    keys: "map fst m' = map fst data" and fs: "(first, second) \<in> set data" and
    alt: "unat address = unat first + length second \<and>
            set m' \<subseteq> insert (first, second @ recordData) (set data) \<or>
          unat address \<noteq> unat first + length second \<and>
          unat address + length recordData = unat first \<and>
            set m' \<subseteq> insert (first, recordData @ second) (set data)"
    by blast
  from fs assms(3) have clear: "unat first + length second \<le> unat address \<or>
      unat address + length recordData < unat first" by auto
  with alt have tail: "unat address = unat first + length second"
    and sub: "set m' \<subseteq> insert (first, second @ recordData) (set data)" by auto
  have "separated m'"
    unfolding separated_def
  proof (intro ballI, clarify)
    fix a1 b1 a2 b2
    assume 1: "(a1, b1) \<in> set m'" and 2: "(a2, b2) \<in> set m'" and lt: "a1 < a2"
    from lt have ult: "unat a1 < unat a2" by (simp add: unat_less_uint32)
    from 1 sub have c1: "(a1, b1) = (first, second @ recordData) \<or> (a1, b1) \<in> set data" by auto
    from 2 sub have c2: "(a2, b2) = (first, second @ recordData) \<or> (a2, b2) \<in> set data" by auto
    show "unat a1 + length b1 < unat a2"
    proof (cases "(a2, b2) \<in> set data")
      case old2: True
      show ?thesis
      proof (cases "(a1, b1) \<in> set data")
        case True
        with old2 lt assms(2) show ?thesis by (auto simp: separated_def)
      next
        case False
        with c1 have n1: "a1 = first" "b1 = second @ recordData" by simp_all
        from fs old2 lt n1 assms(2) have "unat first + length second < unat a2"
          by (auto simp: separated_def)
        moreover from old2 assms(3) have "unat a2 + length b2 \<le> unat address \<or>
            unat address + length recordData < unat a2" by auto
        ultimately show ?thesis using tail n1 by auto
      qed
    next
      case False
      with c2 have n2: "a2 = first" "b2 = second @ recordData" by simp_all
      with lt c1 have old1: "(a1, b1) \<in> set data" by auto
      with fs lt n2 assms(2) show ?thesis by (auto simp: separated_def)
    qed
  qed
  then have sep: "separated (store_record address recordData data)" by (simp add: s)
  have ord: "ordered (store_record address recordData data)"
    using ordered_keys [OF keys] assms(1) by (simp add: s)
  from fuse_Some_split [OF Some] obtain pre f1 s1 post where
    d: "data = pre @ (f1, s1) # post" and
    alt1: "unat address = unat f1 + length s1 \<and>
             m' = pre @ (f1, s1 @ recordData) # post \<or>
           unat address \<noteq> unat f1 + length s1 \<and>
           unat address + length recordData = unat f1 \<and>
             m' = pre @ (f1, recordData @ s1) # post"
    by blast
  from d have "(f1, s1) \<in> set data" by simp
  with assms(3) have "unat f1 + length s1 \<le> unat address \<or>
      unat address + length recordData < unat f1" by auto
  with alt1 have "unat address = unat f1 + length s1"
    and "m' = pre @ (f1, s1 @ recordData) # post" by auto
  with d s have "\<exists>pre first second post.
      data = pre @ (first, second) # post \<and>
      unat address = unat first + length second \<and>
      store_record address recordData data = pre @ (first, second @ recordData) # post"
    by blast
  with sep ord show ?thesis by blast
qed

text \<open>
  C10. When a chunk starts at the address of the new run and no chunk of the model is
  fusable with the run at its tail or at its head, the insertion gives that key the bytes
  of the run in place of the bytes it had; every other key keeps its bytes, and the keys
  of the model are the same as before.
\<close>

theorem store_replaces_chunk:
  assumes "ordered data" and "(address, old) \<in> set data"
    and "\<forall>(first, second) \<in> set data.
           unat address \<noteq> unat first + length second \<and>
           unat address + length recordData \<noteq> unat first"
  shows "map_of (store_record address recordData data) = (map_of data)(address \<mapsto> recordData) \<and>
         map fst (store_record address recordData data) = map fst data"
proof -
  from assms(3) have "fuse address recordData data = None" by (simp add: fuse_None)
  then have s: "store_record address recordData data = assign address recordData data"
    by (simp add: store_record_def)
  have "map_of (assign address recordData data) k = ((map_of data)(address \<mapsto> recordData)) k" for k
    by (cases "k = address") (simp_all add: map_of_assign map_of_assign_other)
  then have "map_of (assign address recordData data) = (map_of data)(address \<mapsto> recordData)"
    by (rule ext)
  moreover from assms(2) have "address \<in> fst ` set data" by force
  then have "map fst (assign address recordData data) = map fst data"
    by (rule keys_assign [OF assms(1)])
  ultimately show ?thesis by (simp add: s)
qed


text \<open>
  Two chunks, at \<open>0x100\<close> and \<open>0x110\<close>: one byte at \<open>0x101\<close> is appended to the first, one
  byte at \<open>0x108\<close> becomes a chunk between them.
\<close>

theorem store_record_separated_witness:
  "ordered [(0x100, [0x11]), (0x110, [0x33])] \<and>
   separated [(0x100, [0x11]), (0x110, [0x33])] \<and>
   store_record 0x101 [0x22] [(0x100, [0x11]), (0x110, [0x33])] =
     [(0x100, [0x11, 0x22]), (0x110, [0x33])] \<and>
   separated (store_record 0x101 [0x22] [(0x100, [0x11]), (0x110, [0x33])]) \<and>
   store_record 0x108 [0x44] [(0x100, [0x11]), (0x110, [0x33])] =
     [(0x100, [0x11]), (0x108, [0x44]), (0x110, [0x33])] \<and>
   separated (store_record 0x108 [0x44] [(0x100, [0x11]), (0x110, [0x33])])"
proof -
  let ?d = "[(0x100 :: uint32, [0x11 :: uint8]), (0x110, [0x33])]"
  have o: "ordered ?d" by simp
  have s: "separated ?d" by (simp add: separated_def)
  have c1: "\<forall>(first, second) \<in> set ?d.
              unat first + length second \<le> unat (0x101 :: uint32) \<or>
              unat (0x101 :: uint32) + length [0x22 :: uint8] < unat first"
    by simp
  have c2: "\<forall>(first, second) \<in> set ?d.
              unat first + length second \<le> unat (0x108 :: uint32) \<or>
              unat (0x108 :: uint32) + length [0x44 :: uint8] < unat first"
    by simp
  have e1: "store_record 0x101 [0x22] ?d = [(0x100, [0x11, 0x22]), (0x110, [0x33])]"
    by (simp add: store_record_def)
  have e2: "store_record 0x108 [0x44] ?d = [(0x100, [0x11]), (0x108, [0x44]), (0x110, [0x33])]"
    by (simp add: store_record_def)
  have s1: "separated (store_record 0x101 [0x22] ?d)"
    using store_record_separated [OF o s c1] by (rule conjunct1)
  have s2: "separated (store_record 0x108 [0x44] ?d)"
    using store_record_separated [OF o s c2] by (rule conjunct1)
  from o s e1 s1 e2 s2 show ?thesis by blast
qed

text \<open>
  The invariant does not hold after every insertion of the decoder. Three data records of
  one byte at \<open>0x100\<close>, \<open>0x102\<close> and \<open>0x101\<close>: the third is appended to the chunk at
  \<open>0x100\<close>, which then ends where the chunk at \<open>0x102\<close> starts, and the scan stops at the
  first chunk it changes.
\<close>

theorem chunks_touch_counterexample:
  "read CHR ''x'' (open_stream ('':0101000011ED'' @ [CHR 0x0A] @ '':0101020033C9'' @ [CHR 0x0A] @
      '':0101010022DB'' @ [CHR 0x0A] @ '':00000001FF'')) [] =
     (None, [(0x100, [0x11, 0x22]), (0x102, [0x33])]) \<and>
   \<not> separated [(0x100, [0x11, 0x22]), (0x102, [0x33])]"
proof -
  have "read CHR ''x'' (open_stream ('':0101000011ED'' @ [CHR 0x0A] @ '':0101020033C9'' @ [CHR 0x0A] @
      '':0101010022DB'' @ [CHR 0x0A] @ '':00000001FF'')) [] =
     (None, [(0x100, [0x11, 0x22]), (0x102, [0x33])])"
    by code_simp
  moreover have "\<not> separated [(0x100, [0x11, 0x22]), (0x102, [0x33])]"
    by (simp add: separated_def)
  ultimately show ?thesis by simp
qed

text \<open>A run of one byte at \<open>0x100\<close>, where a chunk of two bytes starts.\<close>

theorem store_replaces_chunk_witness:
  "store_record 0x100 [9] [(0x100, [1, 2])] = [(0x100, [9])] \<and>
   map_of (store_record 0x100 [9] [(0x100, [1, 2])]) = (map_of [(0x100, [1, 2])])(0x100 \<mapsto> [9])"
proof -
  have o: "ordered [(0x100, [1, 2])]" by simp
  have i: "(0x100, [1, 2]) \<in> set [(0x100 :: uint32, [1, 2 :: uint8])]" by simp
  have c: "\<forall>(first, second) \<in> set [(0x100 :: uint32, [1, 2 :: uint8])].
             unat (0x100 :: uint32) \<noteq> unat first + length second \<and>
             unat (0x100 :: uint32) + length [9 :: uint8] \<noteq> unat first"
    by simp
  have e: "store_record 0x100 [9] [(0x100, [1, 2])] = [(0x100, [9])]"
    by (simp add: store_record_def)
  from store_replaces_chunk [OF o i c] have
    "map_of (store_record 0x100 [9] [(0x100, [1, 2])]) = (map_of [(0x100, [1, 2])])(0x100 \<mapsto> [9])"
    by (rule conjunct1)
  with e show ?thesis by (rule conjI)
qed


subsection \<open>Failure of the decoder\<close>

text \<open>
  \<open>accept c0 n\<close>: the base address, the model and the stream after the loop of \<^verbatim>\<open>read\<close>
  has taken \<open>n\<close> records in a row without returning or throwing; \<open>None\<close> when it does not
  get that far.
\<close>

fun accept ::
  "char \<Rightarrow> nat \<Rightarrow> int \<Rightarrow> uint32 \<Rightarrow> ChunkMap \<Rightarrow> istream \<Rightarrow> (uint32 \<times> ChunkMap \<times> istream) option" where
  "accept c0 0 lineCounter baseAddress data ifs = Some (baseAddress, data, ifs)"
| "accept c0 (Suc n) lineCounter baseAddress data ifs =
     (if good ifs then
        (case read_record c0 lineCounter baseAddress data ifs of
           Next baseAddress' data' ifs' \<Rightarrow> accept c0 n (lineCounter + 1) baseAddress' data' ifs'
         | Return \<Rightarrow> None
         | Throw e \<Rightarrow> None)
      else None)"

lemma data_record_Throw:
  "data_record line base data len addr cs s = Throw e \<Longrightarrow> error_line e = line"
  by (auto simp: data_record_def Let_def split: prod.splits if_splits)

lemma address_record_Throw:
  "address_record shift line data len cs s = Throw e \<Longrightarrow> error_line e = line"
  by (auto simp: address_record_def Let_def split: prod.splits if_splits)

lemma read_record_Throw:
  "read_record c0 line base data s = Throw e \<Longrightarrow> error_line e = line"
  by (auto simp: read_record_def Let_def split: prod.splits if_splits
      dest: data_record_Throw address_record_Throw)

lemma read_loop_fails:
  "read_loop c0 line base data ifs = (Some e, data') \<Longrightarrow>
     \<exists>n base' ifs'.
       error_line e = line + int n \<and>
       accept c0 n line base data ifs = Some (base', data', ifs') \<and>
       (if good ifs' then read_record c0 (error_line e) base' data' ifs' = Throw e
        else e = EarlyEOF (error_line e))"
proof (induction c0 line base data ifs rule: read_loop.induct)
  case (1 c0 line base data ifs)
  show ?case
  proof (cases "good ifs")
    case False
    with "1.prems" have "e = EarlyEOF line" and "data' = data"
      by (simp_all add: read_loop.simps)
    with False have "error_line e = line + int 0 \<and>
       accept c0 0 line base data ifs = Some (base, data', ifs) \<and>
       (if good ifs then read_record c0 (error_line e) base data' ifs = Throw e
        else e = EarlyEOF (error_line e))" by simp
    then show ?thesis by blast
  next
    case True
    show ?thesis
    proof (cases "read_record c0 line base data ifs")
      case (Next b1 d1 s1)
      with True "1.prems" have "read_loop c0 (line + 1) b1 d1 s1 = (Some e, data')"
        by (simp add: read_loop.simps)
      from "1.IH" [OF True Next this] obtain n base' ifs' where
        l: "error_line e = line + 1 + int n" and
        a: "accept c0 n (line + 1) b1 d1 s1 = Some (base', data', ifs')" and
        f: "if good ifs' then read_record c0 (error_line e) base' data' ifs' = Throw e
            else e = EarlyEOF (error_line e)"
        by blast
      from l have "error_line e = line + int (Suc n)" by simp
      moreover from a True Next have "accept c0 (Suc n) line base data ifs = Some (base', data', ifs')"
        by simp
      ultimately show ?thesis using f by blast
    next
      case Return
      with True "1.prems" show ?thesis by (simp add: read_loop.simps)
    next
      case (Throw e')
      with True "1.prems" have e: "e' = e" and d: "data' = data" by (simp_all add: read_loop.simps)
      from Throw e have l: "error_line e = line" by (simp add: read_record_Throw)
      with True Throw e d have "error_line e = line + int 0 \<and>
         accept c0 0 line base data ifs = Some (base, data', ifs) \<and>
         (if good ifs then read_record c0 (error_line e) base data' ifs = Throw e
          else e = EarlyEOF (error_line e))" by simp
      then show ?thesis by blast
    qed
  qed
qed

text \<open>
  C9, as the code has it. \<^verbatim>\<open>read\<close> changes the member \<^verbatim>\<open>data\<close> in place and has nothing that
  restores it. When it throws, with line number \<open>n\<close>, it has taken \<open>n\<close> records before; the
  model it leaves is the model as it stood after these \<open>n\<close> records, the exception is the
  one of the next turn of the loop (or \<open>EarlyEOF\<close>, the stream not being good any more), and
  that turn stores nothing. So the model is as before the call when the failure is at
  line 0.
\<close>

theorem read_fails_without_rollback:
  assumes "read c0 ifs data = (Some e, data')"
  shows "0 \<le> error_line e \<and>
         (\<exists>base' ifs'.
            accept c0 (nat (error_line e)) 0 0 data ifs = Some (base', data', ifs') \<and>
            (if good ifs' then read_record c0 (error_line e) base' data' ifs' = Throw e
             else e = EarlyEOF (error_line e))) \<and>
         (error_line e = 0 \<longrightarrow> data' = data)"
proof -
  from assms have "read_loop c0 0 0 data ifs = (Some e, data')" by (simp add: read_def)
  from read_loop_fails [OF this] obtain n base' ifs' where
    l: "error_line e = int n" and
    a: "accept c0 n 0 0 data ifs = Some (base', data', ifs')" and
    f: "if good ifs' then read_record c0 (error_line e) base' data' ifs' = Throw e
        else e = EarlyEOF (error_line e)"
    by auto
  from l have n: "nat (error_line e) = n" by simp
  have "error_line e = 0 \<longrightarrow> data' = data" using l a by auto
  moreover have "0 \<le> error_line e" using l by simp
  ultimately show ?thesis using a f n by blast
qed

text \<open>A data record that is stored, then one with a wrong check sum.\<close>

theorem read_fails_without_rollback_witness:
  "read CHR ''x'' (open_stream ('':0100000055AA'' @ [CHR 0x0A] @ '':0100000055AB'')) [] =
     (Some (WrongCheckSum 1 0xAB 0xAA), [(0, [0x55])]) \<and>
   (\<exists>base' ifs'.
      accept CHR ''x'' 1 0 0 [] (open_stream ('':0100000055AA'' @ [CHR 0x0A] @ '':0100000055AB''))
        = Some (base', [(0, [0x55])], ifs'))"
proof -
  have r: "read CHR ''x'' (open_stream ('':0100000055AA'' @ [CHR 0x0A] @ '':0100000055AB'')) [] =
     (Some (WrongCheckSum 1 0xAB 0xAA), [(0, [0x55])])"
    by code_simp
  have n: "nat (error_line (WrongCheckSum 1 0xAB 0xAA)) = 1" by simp
  from read_fails_without_rollback [OF r] have
    "\<exists>base' ifs'.
       accept CHR ''x'' (nat (error_line (WrongCheckSum 1 0xAB 0xAA))) 0 0 []
         (open_stream ('':0100000055AA'' @ [CHR 0x0A] @ '':0100000055AB''))
        = Some (base', [(0, [0x55])], ifs')"
    by blast
  then have
    "\<exists>base' ifs'.
       accept CHR ''x'' 1 0 0 [] (open_stream ('':0100000055AA'' @ [CHR 0x0A] @ '':0100000055AB''))
        = Some (base', [(0, [0x55])], ifs')"
    by (simp only: n)
  with r show ?thesis by (rule conjI)
qed

text \<open>
  The model is not unchanged by a failed call: from the empty model, the same stream
  leaves the chunk of its first record behind the \<open>WrongCheckSum\<close> of its second.
\<close>

theorem partial_result_counterexample:
  "read CHR ''x'' (open_stream ('':0100000055AA'' @ [CHR 0x0A] @ '':0100000055AB'')) [] =
     (Some (WrongCheckSum 1 0xAB 0xAA), [(0, [0x55])]) \<and>
   [(0 :: uint32, [0x55 :: uint8])] \<noteq> []"
proof -
  have "read CHR ''x'' (open_stream ('':0100000055AA'' @ [CHR 0x0A] @ '':0100000055AB'')) [] =
     (Some (WrongCheckSum 1 0xAB 0xAA), [(0, [0x55])])"
    by code_simp
  then show ?thesis by simp
qed


subsection \<open>Where the code departs from the claims\<close>

text \<open>The byte a model holds at an absolute address, taken from the first chunk that covers it.\<close>

fun byte_at :: "ChunkMap \<Rightarrow> nat \<Rightarrow> uint8 option" where
  "byte_at [] a = None"
| "byte_at ((first, second) # m) a =
     (if unat first \<le> a \<and> a < unat first + length second
      then Some (second ! (a - unat first))
      else byte_at m a)"

text \<open>
  C1. The round trip does not keep the address of a byte. \<^verbatim>\<open>writeData\<close> prints the low
  byte of the 16-bit address before the high byte, and the decoder reads the high byte
  first: the model with the byte \<open>0xAA\<close> at address 1 is written as a data record that is
  read back at address \<open>0x0100\<close>. (The page records are of type 2, see C3, and every row of
  a chunk is written with the address of its first row.)
\<close>

theorem round_trip_moves_byte:
  "write_file [(0x0001, [0xAA])] =
     Some ('':020000020000fc'' @ [CHR 0x0A] @ '':01010000aa54'' @ [CHR 0x0A] @ '':00000001FF'') \<and>
   read c0 (open_stream ('':020000020000fc'' @ [CHR 0x0A] @ '':01010000aa54'' @ [CHR 0x0A] @ '':00000001FF'')) []
     = (None, [(0x0100, [0xAA])]) \<and>
   byte_at [(0x0001, [0xAA])] 1 = Some 0xAA \<and>
   byte_at [(0x0100, [0xAA])] 1 = None"
proof -
  have "write_file [(0x0001, [0xAA])] =
     Some ('':020000020000fc'' @ [CHR 0x0A] @ '':01010000aa54'' @ [CHR 0x0A] @ '':00000001FF'')"
    by code_simp
  moreover have "read c0 (open_stream ('':020000020000fc'' @ [CHR 0x0A] @ '':01010000aa54'' @ [CHR 0x0A] @ '':00000001FF'')) []
     = (None, [(0x0100, [0xAA])])"
    by code_simp
  moreover have "byte_at [(0x0001, [0xAA])] 1 = Some 0xAA" by simp
  moreover have "byte_at [(0x0100, [0xAA])] 1 = None" by simp
  ultimately show ?thesis by simp
qed

text \<open>
  C3. \<^verbatim>\<open>writeExtendedLinearAddressRecord\<close> emits a record of type 2, the extended segment
  address record of the decoder, with the low byte of the page before the high byte. For a
  chunk at \<open>0x00010000\<close> the page 1 is written as \<^verbatim>\<open>:020000020100fb\<close>, which the decoder
  reads as the base address \<open>0x0100 << 4\<close>.
\<close>

theorem page_record_is_type_2:
  "write_file [(0x00010000, [0xAA])] =
     Some ('':020000020100fb'' @ [CHR 0x0A] @ '':01000000aa55'' @ [CHR 0x0A] @ '':00000001FF'') \<and>
   writeExtendedLinearAddressRecord 1 = Some ('':020000020100fb'' @ [CHR 0x0A]) \<and>
   read_record c0 0 0 [] (open_stream ('':020000020100fb'' @ [CHR 0x0A])) =
     Next 0x1000 [] \<lparr>chars = [CHR 0x0A], good = True\<rparr>"
proof -
  have "write_file [(0x00010000, [0xAA])] =
     Some ('':020000020100fb'' @ [CHR 0x0A] @ '':01000000aa55'' @ [CHR 0x0A] @ '':00000001FF'')"
    by code_simp
  moreover have "writeExtendedLinearAddressRecord 1 = Some ('':020000020100fb'' @ [CHR 0x0A])"
    by code_simp
  moreover have "read_record c0 0 0 [] (open_stream ('':020000020100fb'' @ [CHR 0x0A])) =
     Next 0x1000 [] \<lparr>chars = [CHR 0x0A], good = True\<rparr>"
    by code_simp
  ultimately show ?thesis by simp
qed

text \<open>
  C6. The records for \<open>[0x100, 0x110)\<close> and \<open>[0x110, 0x120)\<close> give one chunk in either
  order. In the first order it is the chunk at \<open>0x100\<close>. In the other order the head fusion
  puts the new bytes in front of the bytes of the chunk at \<open>0x110\<close> and leaves its key as it
  is: the one chunk covers \<open>[0x110, 0x130)\<close>.
\<close>

theorem head_fusion_keeps_key:
  "read c0 (open_stream
      ('':10010000000102030405060708090A0B0C0D0E0F77'' @ [CHR 0x0A] @
       '':10011000101112131415161718191A1B1C1D1E1F67'' @ [CHR 0x0A] @ '':00000001FF'')) [] =
     (None, [(0x100, [0, 1, 2, 3, 4, 5, 6, 7, 8, 9, 10, 11, 12, 13, 14, 15,
                      16, 17, 18, 19, 20, 21, 22, 23, 24, 25, 26, 27, 28, 29, 30, 31])]) \<and>
   read c0 (open_stream
      ('':10011000101112131415161718191A1B1C1D1E1F67'' @ [CHR 0x0A] @
       '':10010000000102030405060708090A0B0C0D0E0F77'' @ [CHR 0x0A] @ '':00000001FF'')) [] =
     (None, [(0x110, [0, 1, 2, 3, 4, 5, 6, 7, 8, 9, 10, 11, 12, 13, 14, 15,
                      16, 17, 18, 19, 20, 21, 22, 23, 24, 25, 26, 27, 28, 29, 30, 31])])"
proof -
  have "read c0 (open_stream
      ('':10010000000102030405060708090A0B0C0D0E0F77'' @ [CHR 0x0A] @
       '':10011000101112131415161718191A1B1C1D1E1F67'' @ [CHR 0x0A] @ '':00000001FF'')) [] =
     (None, [(0x100, [0, 1, 2, 3, 4, 5, 6, 7, 8, 9, 10, 11, 12, 13, 14, 15,
                      16, 17, 18, 19, 20, 21, 22, 23, 24, 25, 26, 27, 28, 29, 30, 31])])"
    by code_simp
  moreover have "read c0 (open_stream
      ('':10011000101112131415161718191A1B1C1D1E1F67'' @ [CHR 0x0A] @
       '':10010000000102030405060708090A0B0C0D0E0F77'' @ [CHR 0x0A] @ '':00000001FF'')) [] =
     (None, [(0x110, [0, 1, 2, 3, 4, 5, 6, 7, 8, 9, 10, 11, 12, 13, 14, 15,
                      16, 17, 18, 19, 20, 21, 22, 23, 24, 25, 26, 27, 28, 29, 30, 31])])"
    by code_simp
  ultimately show ?thesis by simp
qed

text \<open>
  C7. Not every data record behind an address record is stored at its base address plus
  its 16-bit address. After a linear address record with value \<open>0x0001\<close>, the data byte
  \<open>0x11\<close> at \<open>0x0021\<close> and then the data byte \<open>0xAA\<close> at \<open>0x0020\<close>: the second record is
  fused at the head of the chunk of the first, whose key stays \<open>0x00010021\<close> (the defect
  of C6), so the model holds \<open>0xAA\<close> at \<open>0x00010021\<close> and nothing at \<open>0x00010020\<close>.
\<close>

theorem head_fused_record_misplaced:
  "read c0 (open_stream
      ('':020000040001F9'' @ [CHR 0x0A] @ '':0100210011CD'' @ [CHR 0x0A] @
       '':01002000AA35'' @ [CHR 0x0A] @ '':00000001FF'')) [] =
     (None, [(0x00010021, [0xAA, 0x11])]) \<and>
   byte_at [(0x00010021, [0xAA, 0x11])] 0x00010020 = None \<and>
   byte_at [(0x00010021, [0xAA, 0x11])] 0x00010021 = Some 0xAA"
proof -
  let ?n = "[CHR 0x0A]"
  let ?s0 = "open_stream ('':020000040001F9'' @ ?n @ '':0100210011CD'' @ ?n @
                '':01002000AA35'' @ ?n @ '':00000001FF'')"
  let ?s1 = "\<lparr>chars = ?n @ '':0100210011CD'' @ ?n @ '':01002000AA35'' @ ?n @ '':00000001FF'',
              good = True\<rparr>"
  let ?s2 = "\<lparr>chars = ?n @ '':01002000AA35'' @ ?n @ '':00000001FF'', good = True\<rparr>"
  let ?s3 = "\<lparr>chars = ?n @ '':00000001FF'', good = True\<rparr>"
  have g: "good ?s0" "good ?s1" "good ?s2" "good ?s3" by (simp_all add: open_stream_def)
  have 1: "read_record c0 0 0 [] ?s0 = Next 0x10000 [] ?s1"
    by code_simp
  have 2: "read_record c0 (0 + 1) 0x10000 [] ?s1 = Next 0x10000 [(0x10021, [0x11])] ?s2"
    by code_simp
  have 3: "read_record c0 (0 + 1 + 1) 0x10000 [(0x10021, [0x11])] ?s2 =
             Next 0x10000 [(0x10021, [0xAA, 0x11])] ?s3"
  proof -
    have r: "record_at (1 # 0 # 0x20 # 0 # [0xAA] @ [0x35]) ?s2"
      by (simp add: record_at_def isspace_def hex_value_def)
    have l: "length [0xAA :: uint8] = unat (1 :: uint8)" by simp
    from accepted_data_record [OF r l, of c0 "0 + 1 + 1" "0x10000" "[(0x10021, [0x11])]"]
    show ?thesis
      by (simp add: after_record_def isspace_def address16_def store_record_def)
  qed
  have 4: "read_record c0 (0 + 1 + 1 + 1) 0x10000 [(0x10021, [0xAA, 0x11])] ?s3 = Return"
    by code_simp
  have "read_loop c0 (0 + 1 + 1 + 1) 0x10000 [(0x10021, [0xAA, 0x11])] ?s3 =
          (None, [(0x10021, [0xAA, 0x11])])"
    by (subst read_loop.simps) (simp only: g 4 if_True step.case)
  then have "read_loop c0 (0 + 1 + 1) 0x10000 [(0x10021, [0x11])] ?s2 =
          (None, [(0x10021, [0xAA, 0x11])])"
    by (subst read_loop.simps) (simp only: g 3 if_True step.case)
  then have "read_loop c0 (0 + 1) 0x10000 [] ?s1 = (None, [(0x10021, [0xAA, 0x11])])"
    by (subst read_loop.simps) (simp only: g 2 if_True step.case)
  then have "read c0 ?s0 [] = (None, [(0x10021, [0xAA, 0x11])])"
    unfolding read_def by (subst read_loop.simps) (simp only: g 1 if_True step.case)
  moreover have "byte_at [(0x00010021, [0xAA, 0x11])] 0x00010020 = None" by simp
  moreover have "byte_at [(0x00010021, [0xAA, 0x11])] 0x00010021 = Some 0xAA" by simp
  ultimately show ?thesis by simp
qed

text \<open>
  C8. A stream of one well-formed data record and a line end, with no end-of-file record.
  After the record the stream is still good, so the loop is entered once more; the
  extraction of the colon fails and leaves \<^verbatim>\<open>c\<close> indeterminate. Whatever its value, the
  exception is not \<open>EarlyEOF\<close>: it is \<open>InvalidRecord\<close>, or \<open>UnknownRecordType\<close> with the type
  \<open>0xFF\<close> that the lexer makes of the end of the stream.
\<close>

theorem exhausted_stream_no_EarlyEOF:
  "read c0 (open_stream ('':0100000055AA'' @ [CHR 0x0A])) [] =
     (Some (if c0 = CHR '':'' then UnknownRecordType 1 0xFF else InvalidRecord 1), [(0, [0x55])])"
proof -
  let ?t = "\<lparr>chars = [CHR 0x0A], good = True\<rparr>"
  have 1: "read_record c0 0 0 [] (open_stream ('':0100000055AA'' @ [CHR 0x0A])) = Next 0 [(0, [0x55])] ?t"
    by code_simp
  have 2: "read_record c0 1 0 [(0, [0x55])] ?t =
             Throw (if c0 = CHR '':'' then UnknownRecordType 1 0xFF else InvalidRecord 1)"
  proof (cases "c0 = CHR '':''")
    case True
    have "read_record CHR '':'' 1 0 [(0, [0x55])] ?t = Throw (UnknownRecordType 1 0xFF)"
      by code_simp
    with True show ?thesis by simp
  next
    case False
    then show ?thesis by (simp add: read_record_def extract_char_def isspace_def)
  qed
  have g: "good (open_stream ('':0100000055AA'' @ [CHR 0x0A]))" "good ?t"
    by (simp_all add: open_stream_def)
  have "read_loop c0 (0 + 1) 0 [(0, [0x55])] ?t =
          (Some (if c0 = CHR '':'' then UnknownRecordType 1 0xFF else InvalidRecord 1), [(0, [0x55])])"
    by (subst read_loop.simps) (simp only: g 2 if_True step.case add_0)
  then show ?thesis
    unfolding read_def by (subst read_loop.simps) (simp only: g 1 if_True step.case)
qed


end
